theory Spec2Isabelle
  imports Complex_Main "HOL-Library.Sublist" "HOL-Library.AList"
begin

section \<open>Python values and errors\<close>

text \<open>
  The exceptions that the modelled code paths of \<^verbatim>\<open>convert_images_to_pdf.py\<close> can raise.
  \<open>OSError\<close> stands for every file-system and decoding failure (a missing file, an
  undecodable image, a missing directory); Pillow's and Python's own subclasses of it are
  not told apart.
\<close>

datatype py_error = ZeroDivisionError | ValueError | TypeError | OSError

section \<open>Natural sort key\<close>

text \<open>
  A Python \<open>str\<close> is modelled as a \<open>string\<close> whose characters are the code points below
  256. On that range the pattern \<^verbatim>\<open>\d\<close> matches the ten ASCII digits only, while
  \<^verbatim>\<open>str.isdigit\<close> also accepts the superscripts U+00B2, U+00B3 and U+00B9, and
  \<^verbatim>\<open>str.lower\<close> maps A..Z and the capital letters U+00C0..U+00DE (without U+00D7)
  to the letter 32 code points above.
\<close>

definition ord :: "char \<Rightarrow> nat" where
  "ord c = of_char c"

definition re_digit :: "char \<Rightarrow> bool" where
  "re_digit c = (48 \<le> ord c \<and> ord c \<le> 57)"

definition char_isdigit :: "char \<Rightarrow> bool" where
  "char_isdigit c = (re_digit c \<or> ord c = 178 \<or> ord c = 179 \<or> ord c = 185)"

definition isdigit :: "string \<Rightarrow> bool" where
  "isdigit text = (text \<noteq> [] \<and> list_all char_isdigit text)"

definition char_lower :: "char \<Rightarrow> char" where
  "char_lower c =
     (if (65 \<le> ord c \<and> ord c \<le> 90) \<or> (192 \<le> ord c \<and> ord c \<le> 222 \<and> ord c \<noteq> 215)
      then char_of (ord c + 32) else c)"

definition lower :: "string \<Rightarrow> string" where
  "lower s = map char_lower s"

text \<open>
  \<^verbatim>\<open>int(text)\<close> on a text for which \<^verbatim>\<open>text.isdigit()\<close> holds: the decimal value when every
  character is an ASCII digit, \<open>ValueError\<close> otherwise. Python's integers are unbounded.
\<close>

definition py_int :: "string \<Rightarrow> py_error + int" where
  "py_int text =
     (if text \<noteq> [] \<and> list_all re_digit text
      then Inr (foldl (\<lambda>a c. 10 * a + int (ord c - 48)) 0 text)
      else Inl ValueError)"

text \<open>
  \<^verbatim>\<open>re.split('(\d+)', s)\<close>: the maximal digit runs are the separators and, the group being
  capturing, are kept; the result alternates text, digits, text, ..., text.
\<close>

function re_split :: "string \<Rightarrow> string list" where
  "re_split s =
     (if dropWhile (\<lambda>c. \<not> re_digit c) s = [] then [takeWhile (\<lambda>c. \<not> re_digit c) s]
      else takeWhile (\<lambda>c. \<not> re_digit c) s
         # takeWhile re_digit (dropWhile (\<lambda>c. \<not> re_digit c) s)
         # re_split (dropWhile re_digit (dropWhile (\<lambda>c. \<not> re_digit c) s)))"
  by pat_completeness auto
termination
proof (relation "measure length")
  show "wf (measure length)" by simp
next
  fix s :: string
  let ?rest = "dropWhile (\<lambda>c. \<not> re_digit c) s"
  assume ne: "?rest \<noteq> []"
  then have "re_digit (hd ?rest)"
    using hd_dropWhile [of "\<lambda>c. \<not> re_digit c" s] by simp
  with ne have "length (dropWhile re_digit ?rest) < length ?rest"
    by (cases ?rest) (auto simp: le_imp_less_Suc length_dropWhile_le)
  moreover have "length ?rest \<le> length s"
    by (rule length_dropWhile_le)
  ultimately show "(dropWhile re_digit ?rest, s) \<in> measure length"
    by simp
qed

declare re_split.simps [simp del]

datatype token = TInt int | TStr string

definition token_of :: "string \<Rightarrow> py_error + token" where
  "token_of text =
     (if isdigit text
      then (case py_int text of Inl e \<Rightarrow> Inl e | Inr n \<Rightarrow> Inr (TInt n))
      else Inr (TStr (lower text)))"

fun tokens_of :: "string list \<Rightarrow> py_error + token list" where
  "tokens_of [] = Inr []"
| "tokens_of (text # texts) =
     (case token_of text of
        Inl e \<Rightarrow> Inl e
      | Inr t \<Rightarrow> (case tokens_of texts of Inl e \<Rightarrow> Inl e | Inr ts \<Rightarrow> Inr (t # ts)))"

definition natural_sort_key :: "string \<Rightarrow> py_error + token list" where
  "natural_sort_key s = tokens_of (re_split s)"

text \<open>
  Python's \<^verbatim>\<open><\<close> on sequences: the first position where the two differ decides, by
  \<^verbatim>\<open><\<close> on the two elements there; without such a position the shorter sequence is
  the smaller. On elements, two integers compare by value, two strings by code points,
  and an integer against a string raises \<open>TypeError\<close>.
\<close>

fun seq_lt :: "('a \<Rightarrow> 'a \<Rightarrow> py_error + bool) \<Rightarrow> 'a list \<Rightarrow> 'a list \<Rightarrow> py_error + bool" where
  "seq_lt lt [] [] = Inr False"
| "seq_lt lt [] (y # ys) = Inr True"
| "seq_lt lt (x # xs) [] = Inr False"
| "seq_lt lt (x # xs) (y # ys) = (if x = y then seq_lt lt xs ys else lt x y)"

definition char_lt :: "char \<Rightarrow> char \<Rightarrow> py_error + bool" where
  "char_lt a b = Inr (ord a < ord b)"

definition str_lt :: "string \<Rightarrow> string \<Rightarrow> py_error + bool" where
  "str_lt = seq_lt char_lt"

fun token_lt :: "token \<Rightarrow> token \<Rightarrow> py_error + bool" where
  "token_lt (TInt a) (TInt b) = Inr (a < b)"
| "token_lt (TStr a) (TStr b) = str_lt a b"
| "token_lt (TInt a) (TStr b) = Inl TypeError"
| "token_lt (TStr a) (TInt b) = Inl TypeError"

definition key_lt :: "token list \<Rightarrow> token list \<Rightarrow> py_error + bool" where
  "key_lt = seq_lt token_lt"



section \<open>Page compositor\<close>

text \<open>
  A decoded image is its pixel dimensions and its pixel data; the data is kept abstract
  (a number naming it), so that a composed cell can be traced back to its source image.
\<close>

record image =
  width :: nat
  height :: nat
  pixels :: nat

text \<open>
  The canvas returned by \<^verbatim>\<open>resize_and_align_image\<close>: its size, the label drawn on it
  (with its position) and the resized image pasted on it (with its position).
\<close>

record canvas =
  canvas_size :: "int \<times> int"
  canvas_text :: "((int \<times> int) \<times> string) option"
  canvas_image :: image
  canvas_image_at :: "int \<times> int"

text \<open>
  Float arithmetic is modelled by exact rational arithmetic. \<^verbatim>\<open>round(x)\<close> rounds to the
  nearest integer, a tie to the even one; \<^verbatim>\<open>int(x)\<close> truncates towards zero. The program
  computes in IEEE doubles, so where the exact quotient or product is a tie or next to one
  the two can differ by a pixel: for an image of 1400 by 300 pixels in the A4 cell without
  margin the doubles give \<^verbatim>\<open>round(127.49999999999999) = 127\<close> and the exact value 127.5
  rounds to 128. On the inputs evaluated below the doubles give the same results.
\<close>

definition py_round :: "rat \<Rightarrow> int" where
  "py_round x =
     (if x - of_int \<lfloor>x\<rfloor> < 1 / 2 then \<lfloor>x\<rfloor>
      else if 1 / 2 < x - of_int \<lfloor>x\<rfloor> then \<lfloor>x\<rfloor> + 1
      else if even \<lfloor>x\<rfloor> then \<lfloor>x\<rfloor> else \<lfloor>x\<rfloor> + 1)"

definition py_trunc :: "rat \<Rightarrow> int" where
  "py_trunc x = (if 0 \<le> x then \<lfloor>x\<rfloor> else \<lceil>x\<rceil>)"

definition font_size :: "int \<times> int \<Rightarrow> int" where
  "font_size page_size = py_trunc (of_int (snd page_size) * (2 / 100))"

text \<open>
  Loading the font never fails (a missing \<^verbatim>\<open>arial.ttf\<close> falls back to the default font).
  The height of the bounding box of a label, \<^verbatim>\<open>bbox[3] - bbox[1]\<close>, depends on the font:
  it is the parameter \<open>th\<close>, from the font size and the text. A label is used when it is
  given and not empty (\<^verbatim>\<open>if label:\<close>).
\<close>

definition label_height :: "(int \<Rightarrow> string \<Rightarrow> int) \<Rightarrow> int \<times> int \<Rightarrow> string option \<Rightarrow> int" where
  "label_height th page_size label =
     (case label of
        None \<Rightarrow> 0
      | Some l \<Rightarrow> if l = [] then 0 else th (font_size page_size) l + 5)"

text \<open>
  Lines 18, 19 and 36 to 44: the two ratios, the usable area and the dimensions
  \<open>(new_width, new_height)\<close>. A division by zero raises.
\<close>

definition new_size :: "image \<Rightarrow> int \<times> int \<Rightarrow> int \<Rightarrow> int \<Rightarrow> py_error + (int \<times> int)" where
  "new_size im page_size margin lh =
     (if height im = 0 then Inl ZeroDivisionError
      else if snd page_size = 0 then Inl ZeroDivisionError
      else
        let img_ratio = (of_nat (width im) / of_nat (height im) :: rat);
            page_ratio = (of_int (fst page_size) / of_int (snd page_size) :: rat);
            usable_width = fst page_size - 2 * margin;
            usable_height = snd page_size - 2 * margin - lh
        in if img_ratio > page_ratio
           then (if img_ratio = 0 then Inl ZeroDivisionError
                 else Inr (usable_width, py_round (of_int usable_width / img_ratio)))
           else Inr (py_round (of_int usable_height * img_ratio), usable_height))"

text \<open>
  Pillow's \<^verbatim>\<open>Image.resize\<close> returns a copy when the size asked for is the size of the
  image, and otherwise rejects a width or height below 1 with \<open>ValueError\<close>.
  \<^verbatim>\<open>Image.new\<close> rejects a negative width or height.
\<close>

definition resize :: "image \<Rightarrow> int \<times> int \<Rightarrow> py_error + image" where
  "resize im sz =
     (if sz = (int (width im), int (height im)) then Inr im
      else if fst sz < 1 \<or> snd sz < 1 then Inl ValueError
      else Inr (im\<lparr>width := nat (fst sz), height := nat (snd sz)\<rparr>))"

definition resize_and_align_image ::
  "(int \<Rightarrow> string \<Rightarrow> int) \<Rightarrow> image \<Rightarrow> int \<times> int \<Rightarrow> int \<Rightarrow> string option \<Rightarrow> py_error + canvas" where
  "resize_and_align_image th im page_size margin label =
     (case new_size im page_size margin (label_height th page_size label) of
        Inl e \<Rightarrow> Inl e
      | Inr new \<Rightarrow>
          (case resize im new of
             Inl e \<Rightarrow> Inl e
           | Inr resized_image \<Rightarrow>
               if fst page_size < 0 \<or> snd page_size < 0 then Inl ValueError
               else Inr \<lparr>canvas_size = page_size,
                         canvas_text =
                           (case label of
                              None \<Rightarrow> None
                            | Some l \<Rightarrow> if l = [] then None else Some ((margin, margin), l)),
                         canvas_image = resized_image,
                         canvas_image_at =
                           ((fst page_size - fst new) div 2,
                            margin + label_height th page_size label)\<rparr>))"

section \<open>Files, paths and the batch pipeline\<close>

text \<open>
  A page of the document is the full-page canvas with the cells pasted on it, each with
  its position. A file holds a decodable image, a PDF document (its pages) or anything
  else.
\<close>

record page =
  page_size :: "int \<times> int"
  page_cells :: "(canvas \<times> (int \<times> int)) list"

datatype fcontent = ImageFile image | PdfFile "page list" | OtherFile

datatype fs_op = Saved string | Removed string

text \<open>
  The world the program runs in: the current working directory, what \<^verbatim>\<open>os.listdir\<close>
  answers for a directory, the files and their creation times (both by resolved path),
  what was printed, and the log of the writes and removals done so far. Writing a file
  is taken to succeed.
\<close>

record world =
  cwd :: string
  listdir :: "(string \<times> string list) list"
  files :: "(string \<times> fcontent) list"
  ctimes :: "(string \<times> rat) list"
  stdout :: "string list"
  oplog :: "fs_op list"

definition A4_PAGE_SIZE :: "int \<times> int" where
  "A4_PAGE_SIZE = (595, 842)"

text \<open>\<^verbatim>\<open>os.path.join\<close> for two components and the resolution of a relative path (POSIX).\<close>

definition os_path_join :: "string \<Rightarrow> string \<Rightarrow> string" where
  "os_path_join a b =
     (if prefix ''/'' b then b
      else if a = [] \<or> suffix ''/'' a then a @ b
      else a @ ''/'' @ b)"

definition resolve :: "world \<Rightarrow> string \<Rightarrow> string" where
  "resolve w path = (if prefix ''/'' path then path else os_path_join (cwd w) path)"

definition os_listdir :: "world \<Rightarrow> string \<Rightarrow> py_error + string list" where
  "os_listdir w directory =
     (case map_of (listdir w) (resolve w directory) of
        None \<Rightarrow> Inl OSError
      | Some names \<Rightarrow> Inr names)"

definition os_path_getctime :: "world \<Rightarrow> string \<Rightarrow> py_error + rat" where
  "os_path_getctime w path =
     (case map_of (ctimes w) (resolve w path) of
        None \<Rightarrow> Inl OSError
      | Some t \<Rightarrow> Inr t)"

definition image_open :: "world \<Rightarrow> string \<Rightarrow> py_error + image" where
  "image_open w path =
     (case map_of (files w) (resolve w path) of
        Some (ImageFile img) \<Rightarrow> Inr img
      | _ \<Rightarrow> Inl OSError)"

definition save_file :: "world \<Rightarrow> string \<Rightarrow> fcontent \<Rightarrow> world" where
  "save_file w path c =
     w\<lparr>files := AList.update (resolve w path) c (files w),
       oplog := oplog w @ [Saved (resolve w path)]\<rparr>"

definition os_remove :: "world \<Rightarrow> string \<Rightarrow> py_error + world" where
  "os_remove w path =
     (case map_of (files w) (resolve w path) of
        None \<Rightarrow> Inl OSError
      | Some c \<Rightarrow>
          Inr (w\<lparr>files := AList.delete (resolve w path) (files w),
                 oplog := oplog w @ [Removed (resolve w path)]\<rparr>))"

definition print :: "world \<Rightarrow> string \<Rightarrow> world" where
  "print w msg = w\<lparr>stdout := stdout w @ [msg]\<rparr>"

text \<open>\<^verbatim>\<open>PdfMerger.append(path)\<close> reads the document at the path and appends its pages.\<close>

definition merger_append :: "world \<Rightarrow> string \<Rightarrow> page list \<Rightarrow> py_error + page list" where
  "merger_append w path merger =
     (case map_of (files w) (resolve w path) of
        Some (PdfFile pages) \<Rightarrow> Inr (merger @ pages)
      | _ \<Rightarrow> Inl OSError)"

text \<open>Formatting a non-negative integer in an f-string: its decimal digits.\<close>

function str_nat :: "nat \<Rightarrow> string" where
  "str_nat n = (if n < 10 then [char_of (48 + n)] else str_nat (n div 10) @ [char_of (48 + n mod 10)])"
  by pat_completeness auto
termination
  by (relation "measure id") auto

declare str_nat.simps [simp del]

definition is_image :: "string \<Rightarrow> bool" where
  "is_image f =
     list_ex (\<lambda>ext. suffix ext (lower f)) [''.png'', ''.jpg'', ''.jpeg'', ''.bmp'', ''.gif'', ''.tiff'']"

text \<open>
  \<^verbatim>\<open>list.sort(key=...)\<close>: the keys are computed first, in list order; the sort is
  stable and compares keys with \<^verbatim>\<open><\<close> only. It is modelled by insertion from the left,
  each element going before the first element that its key is smaller than.
\<close>

fun with_keys :: "('a \<Rightarrow> py_error + 'k) \<Rightarrow> 'a list \<Rightarrow> py_error + ('k \<times> 'a) list" where
  "with_keys key [] = Inr []"
| "with_keys key (x # xs) =
     (case key x of
        Inl e \<Rightarrow> Inl e
      | Inr k \<Rightarrow> (case with_keys key xs of Inl e \<Rightarrow> Inl e | Inr kxs \<Rightarrow> Inr ((k, x) # kxs)))"

fun insert_by :: "('k \<Rightarrow> 'k \<Rightarrow> py_error + bool) \<Rightarrow> 'k \<times> 'a \<Rightarrow> ('k \<times> 'a) list \<Rightarrow> py_error + ('k \<times> 'a) list" where
  "insert_by lt kx [] = Inr [kx]"
| "insert_by lt kx (ky # rest) =
     (case lt (fst kx) (fst ky) of
        Inl e \<Rightarrow> Inl e
      | Inr True \<Rightarrow> Inr (kx # ky # rest)
      | Inr False \<Rightarrow> (case insert_by lt kx rest of Inl e \<Rightarrow> Inl e | Inr r \<Rightarrow> Inr (ky # r)))"

fun sort_loop :: "('k \<Rightarrow> 'k \<Rightarrow> py_error + bool) \<Rightarrow> ('k \<times> 'a) list \<Rightarrow> ('k \<times> 'a) list \<Rightarrow> py_error + ('k \<times> 'a) list" where
  "sort_loop lt acc [] = Inr acc"
| "sort_loop lt acc (kx # kxs) =
     (case insert_by lt kx acc of Inl e \<Rightarrow> Inl e | Inr acc' \<Rightarrow> sort_loop lt acc' kxs)"

definition list_sort ::
  "('a \<Rightarrow> py_error + 'k) \<Rightarrow> ('k \<Rightarrow> 'k \<Rightarrow> py_error + bool) \<Rightarrow> 'a list \<Rightarrow> py_error + 'a list" where
  "list_sort key lt xs =
     (case with_keys key xs of
        Inl e \<Rightarrow> Inl e
      | Inr kxs \<Rightarrow> (case sort_loop lt [] kxs of Inl e \<Rightarrow> Inl e | Inr r \<Rightarrow> Inr (map snd r)))"

definition float_lt :: "rat \<Rightarrow> rat \<Rightarrow> py_error + bool" where
  "float_lt a b = Inr (a < b)"

definition sort_images :: "world \<Rightarrow> string \<Rightarrow> bool \<Rightarrow> string list \<Rightarrow> py_error + string list" where
  "sort_images w directory sort_by_time images =
     (if sort_by_time
      then list_sort (\<lambda>x. os_path_getctime w (os_path_join directory x)) float_lt images
      else list_sort natural_sort_key key_lt images)"

text \<open>The variables that the loop over the images updates.\<close>

record loop_state =
  current_images :: "canvas list"
  page_number :: nat
  image_counter :: nat
  pdf_merger :: "page list"

fun paste_all :: "int \<Rightarrow> int \<Rightarrow> canvas list \<Rightarrow> (canvas \<times> (int \<times> int)) list" where
  "paste_all per_image_page_height y_offset [] = []"
| "paste_all per_image_page_height y_offset (combined_img # rest) =
     (combined_img, (0, y_offset))
       # paste_all per_image_page_height (y_offset + per_image_page_height) rest"

definition temp_pdf :: "nat \<Rightarrow> string" where
  "temp_pdf n = ''temp_page_'' @ str_nat n @ ''.pdf''"

text \<open>Lines 115 to 118: the label of the image, from the counter.\<close>

definition make_label :: "bool \<Rightarrow> nat \<Rightarrow> string option" where
  "make_label label_images counter =
     (if label_images then Some (''Question '' @ str_nat counter) else None)"

text \<open>Lines 131 to 135: the cells of the batch pasted on a blank page, top to bottom.\<close>

definition combine_page :: "int \<Rightarrow> canvas list \<Rightarrow> page" where
  "combine_page per_image_page_height cells =
     \<lparr>page_size = A4_PAGE_SIZE,
      page_cells = paste_all per_image_page_height 0 cells\<rparr>"

text \<open>
  One pass of the loop of lines 109 to 142, for the image \<open>img_file\<close> at index \<open>i\<close> of
  \<open>n\<close> images.
\<close>

definition loop_body ::
  "(int \<Rightarrow> string \<Rightarrow> int) \<Rightarrow> string \<Rightarrow> int \<Rightarrow> int \<Rightarrow> bool \<Rightarrow> int \<times> int \<Rightarrow> nat \<Rightarrow> nat \<Rightarrow> string
     \<Rightarrow> loop_state \<times> world \<Rightarrow> py_error + loop_state \<times> world" where
  "loop_body th directory images_per_page margin label_images per_image_page_size n i img_file sw =
     (case image_open (snd sw) (os_path_join directory img_file) of
        Inl e \<Rightarrow> Inl e
      | Inr img \<Rightarrow>
          (case resize_and_align_image th img per_image_page_size margin
                  (make_label label_images (image_counter (fst sw))) of
             Inl e \<Rightarrow> Inl e
           | Inr cell \<Rightarrow>
               let st = (fst sw)\<lparr>current_images := current_images (fst sw) @ [cell],
                                image_counter := image_counter (fst sw) + 1\<rparr>
               in if (int i + 1) mod images_per_page = 0 \<or> int i = int n - 1
                  then
                    let page_canvas = combine_page (snd per_image_page_size) (current_images st);
                        w = save_file (snd sw) (temp_pdf (page_number st)) (PdfFile [page_canvas])
                    in (case merger_append w (temp_pdf (page_number st)) (pdf_merger st) of
                          Inl e \<Rightarrow> Inl e
                        | Inr merger \<Rightarrow>
                            Inr (st\<lparr>current_images := [],
                                    page_number := page_number st + 1,
                                    pdf_merger := merger\<rparr>, w))
                  else Inr (st, snd sw)))"

fun process_images ::
  "(int \<Rightarrow> string \<Rightarrow> int) \<Rightarrow> string \<Rightarrow> int \<Rightarrow> int \<Rightarrow> bool \<Rightarrow> int \<times> int \<Rightarrow> nat \<Rightarrow> nat \<Rightarrow> string list
     \<Rightarrow> loop_state \<times> world \<Rightarrow> py_error + loop_state \<times> world" where
  "process_images th directory images_per_page margin label_images per_image_page_size n i [] sw =
     Inr sw"
| "process_images th directory images_per_page margin label_images per_image_page_size n i
       (img_file # rest) sw =
     (case loop_body th directory images_per_page margin label_images per_image_page_size n i
             img_file sw of
        Inl e \<Rightarrow> Inl e
      | Inr sw' \<Rightarrow>
          process_images th directory images_per_page margin label_images per_image_page_size n
            (i + 1) rest sw')"

fun remove_all :: "world \<Rightarrow> string list \<Rightarrow> py_error + world" where
  "remove_all w [] = Inr w"
| "remove_all w (path # paths) =
     (case os_remove w path of Inl e \<Rightarrow> Inl e | Inr w' \<Rightarrow> remove_all w' paths)"

definition images_to_pdf ::
  "(int \<Rightarrow> string \<Rightarrow> int) \<Rightarrow> world \<Rightarrow> string \<Rightarrow> int \<Rightarrow> bool \<Rightarrow> int \<Rightarrow> bool \<Rightarrow> bool \<Rightarrow> py_error + world" where
  "images_to_pdf th w directory images_per_page delete_images margin label_images sort_by_time =
     (case os_listdir w directory of
        Inl e \<Rightarrow> Inl e
      | Inr names \<Rightarrow>
          if filter is_image names = [] then Inr (print w ''No images found in the directory.'')
          else
            (case sort_images w directory sort_by_time (filter is_image names) of
               Inl e \<Rightarrow> Inl e
             | Inr images \<Rightarrow>
                 if images_per_page = 0 then Inl ZeroDivisionError
                 else
                   (case process_images th directory images_per_page margin label_images
                           (fst A4_PAGE_SIZE, snd A4_PAGE_SIZE div images_per_page)
                           (length images) 0 images
                           (\<lparr>current_images = [], page_number = 1, image_counter = 1,
                             pdf_merger = []\<rparr>, w) of
                      Inl e \<Rightarrow> Inl e
                    | Inr sw \<Rightarrow>
                        (case remove_all
                                (save_file (snd sw) (os_path_join directory ''combined_output.pdf'')
                                   (PdfFile (pdf_merger (fst sw))))
                                (map temp_pdf [1 ..< page_number (fst sw)]) of
                           Inl e \<Rightarrow> Inl e
                         | Inr w3 \<Rightarrow>
                             if delete_images
                             then
                               (case remove_all
                                       (print w3 (''PDF created successfully at: ''
                                          @ os_path_join directory ''combined_output.pdf''))
                                       (map (os_path_join directory) images) of
                                  Inl e \<Rightarrow> Inl e
                                | Inr w5 \<Rightarrow> Inr (print w5 ''Original images have been deleted.''))
                             else
                               Inr (print w3 (''PDF created successfully at: ''
                                      @ os_path_join directory ''combined_output.pdf''))))))"

text \<open>
  The interactive glue of lines 179 to 187: the answer is parsed by \<^verbatim>\<open>int\<close> (the
  parameter \<open>parse\<close>, \<open>None\<close> when it raises \<open>ValueError\<close>), and an answer that does
  not parse or is below 1 is replaced by the default 1.
\<close>

definition cli_images_per_page :: "(string \<Rightarrow> int option) \<Rightarrow> string \<Rightarrow> int" where
  "cli_images_per_page parse answer =
     (case parse answer of
        None \<Rightarrow> 1
      | Some images_per_page \<Rightarrow> if images_per_page < 1 then 1 else images_per_page)"

text \<open>
  The grouping of section 4.3, step 5 of the specification, which the loop is compared
  with: pages of \<open>k\<close> cells in list order, the last page possibly partial.
\<close>

function group_pages :: "nat \<Rightarrow> 'a list \<Rightarrow> 'a list list" where
  "group_pages k xs = (if k = 0 \<or> xs = [] then [] else take k xs # group_pages k (drop k xs))"
  by pat_completeness auto
termination
  by (relation "measure (\<lambda>(k, xs). length xs)") auto

declare group_pages.simps [simp del]

text \<open>
  The end-to-end scenario of section 8 of the specification: a directory \<^verbatim>\<open>/data\<close> with the
  images \<^verbatim>\<open>a1.jpg\<close>, \<^verbatim>\<open>a2.jpg\<close> and \<^verbatim>\<open>a10.jpg\<close> of 100 by 200 pixels (and a text file), and
  a directory \<^verbatim>\<open>/empty\<close> without images; the program runs in \<^verbatim>\<open>/home/u\<close>. The labels are 12
  pixels high in the scenario's font.
\<close>

definition scenario :: world where
  "scenario =
     \<lparr>cwd = ''/home/u'',
      listdir = [(''/data'', [''a10.jpg'', ''notes.txt'', ''a2.jpg'', ''a1.jpg'']),
                 (''/empty'', [''notes.txt''])],
      files = [(''/data/a1.jpg'', ImageFile \<lparr>width = 100, height = 200, pixels = 1\<rparr>),
               (''/data/a2.jpg'', ImageFile \<lparr>width = 100, height = 200, pixels = 2\<rparr>),
               (''/data/a10.jpg'', ImageFile \<lparr>width = 100, height = 200, pixels = 10\<rparr>),
               (''/data/notes.txt'', OtherFile), (''/empty/notes.txt'', OtherFile)],
      ctimes = [(''/data/a1.jpg'', 3), (''/data/a2.jpg'', 2), (''/data/a10.jpg'', 1)],
      stdout = [], oplog = []\<rparr>"

definition scenario_font :: "int \<Rightarrow> string \<Rightarrow> int" where
  "scenario_font fs l = 12"

section \<open>The natural sort key: verified properties\<close>


















lemma ord_char_of: "ord (char_of (n::nat)) = n mod 256"
  by (simp add: ord_def)

lemma re_digit_char_lower [simp]: "re_digit (char_lower c) = re_digit c"
  by (auto simp: re_digit_def char_lower_def ord_char_of)

lemma char_isdigit_char_lower [simp]: "char_isdigit (char_lower c) = char_isdigit c"
  by (auto simp: char_isdigit_def re_digit_def char_lower_def ord_char_of)


lemma char_lower_idem [simp]: "char_lower (char_lower c) = char_lower c"
proof -
  have "ord c < 256" by (simp add: ord_def)
  then show ?thesis by (auto simp: char_lower_def ord_char_of)
qed

lemma lower_idem [simp]: "lower (lower s) = lower s"
  by (simp add: lower_def)


lemma isdigit_lower [simp]: "isdigit (lower s) = isdigit s"
  by (simp add: isdigit_def lower_def list_all_iff)





lemma lower_Nil [simp]: "lower s = [] \<longleftrightarrow> s = []"
  by (simp add: lower_def)


















section \<open>The compositor: verified properties\<close>

lemma floor_rat_numeral_div:
  "\<lfloor>numeral a / numeral b :: rat\<rfloor> = numeral a div numeral b"
  using floor_divide_of_int_eq [of "numeral a" "numeral b", where ?'a = rat] by simp

lemma resize_below_one:
  assumes "fst sz < 1 \<or> snd sz < 1" and "0 < width im" and "0 < height im"
  shows "resize im sz = Inl ValueError"
  using assms by (cases sz) (auto simp: resize_def)

text \<open>
  Claim C2 (the resized dimensions keep the aspect ratio and stay within the usable
  width \<open>W - 2m\<close> and the usable height \<open>H - 2m - label_height\<close>) fails on the code: the
  branch at line 39 compares the ratio of the image with the ratio of the whole cell, not
  with the ratio of the usable area. For an image of 500 by 800 pixels in the A4 cell
  with a margin of 100 and no label, the height is set to the usable height 642 and the
  width becomes 401, above the usable width 395. Every float operation on this input is
  exact, but for the ratio of the cell, which is far from the ratio of the image.
\<close>

theorem new_width_exceeds_usable_width:
  "new_size \<lparr>width = 500, height = 800, pixels = 0\<rparr> (595, 842) 100 0 = Inr (401, 642)
   \<and> \<not> (401::int) \<le> 595 - 2 * 100"
  by (simp add: new_size_def py_round_def floor_rat_numeral_div)

text \<open>
  Claim C3: whenever \<^verbatim>\<open>resize_and_align_image\<close> completes without error, the canvas it
  returns has exactly the size of the cell \<open>(W, H)\<close>, whatever the image, the margin and
  the label.
\<close>

theorem canvas_has_cell_size:
  assumes "resize_and_align_image th im (W, H) margin label = Inr c"
  shows "canvas_size c = (W, H)"
  using assms
  by (auto simp: resize_and_align_image_def split: sum.splits if_splits)

theorem canvas_has_cell_size_witness:
  "resize_and_align_image (\<lambda>fs l. 12) \<lparr>width = 100, height = 200, pixels = 1\<rparr> (595, 421) 10
       (Some ''Question 1'')
     = Inr \<lparr>canvas_size = (595, 421), canvas_text = Some ((10, 10), ''Question 1''),
            canvas_image = \<lparr>width = 192, height = 384, pixels = 1\<rparr>,
            canvas_image_at = (201, 27)\<rparr>
   \<and> canvas_size \<lparr>canvas_size = (595, 421), canvas_text = Some ((10, 10), ''Question 1''),
            canvas_image = \<lparr>width = 192, height = 384, pixels = 1\<rparr>,
            canvas_image_at = (201, 27)\<rparr> = (595, 421)"
proof -
  have h: "resize_and_align_image (\<lambda>fs l. 12) \<lparr>width = 100, height = 200, pixels = 1\<rparr>
             (595, 421) 10 (Some ''Question 1'')
     = Inr \<lparr>canvas_size = (595, 421), canvas_text = Some ((10, 10), ''Question 1''),
            canvas_image = \<lparr>width = 192, height = 384, pixels = 1\<rparr>,
            canvas_image_at = (201, 27)\<rparr>"
    by (simp add: resize_and_align_image_def new_size_def label_height_def resize_def
        py_round_def)
  from canvas_has_cell_size [OF h] h show ?thesis by simp
qed

text \<open>
  Claim C5 as stated (dimensions below 1 are clamped to 1 pixel, so that the operation
  does not fail) is false: no clamp exists. With a margin of 421 in the A4 cell the usable
  height is 0, the size \<open>(0, 0)\<close> goes to the resize step as it is, and the operation
  fails with \<open>ValueError\<close>.
\<close>

theorem unclamped_size_counterexample:
  "new_size \<lparr>width = 1, height = 2, pixels = 0\<rparr> (595, 842) 421 0 = Inr (0, 0)
   \<and> resize_and_align_image (\<lambda>fs l. 12) \<lparr>width = 1, height = 2, pixels = 0\<rparr> (595, 842) 421 None
       = Inl ValueError"
  by (simp add: new_size_def py_round_def resize_and_align_image_def label_height_def
      resize_def)

text \<open>
  Claim C5, amended: when the usable dimension that constrains the fit (the usable width
  if the ratio of the image is above the ratio of the cell, the usable height otherwise)
  is zero or negative, that dimension goes to the resize step unclamped, below 1, and
  \<^verbatim>\<open>resize_and_align_image\<close> fails with an error instead of returning a canvas.
\<close>

theorem unusable_area_fails:
  assumes "(if (of_nat (width im) / of_nat (height im) :: rat) > of_int W / of_int H
            then W - 2 * margin else H - 2 * margin - label_height th (W, H) label) \<le> 0"
  shows "(\<forall>nw nh. new_size im (W, H) margin (label_height th (W, H) label) = Inr (nw, nh)
             \<longrightarrow> (if (of_nat (width im) / of_nat (height im) :: rat) > of_int W / of_int H
                  then nw = W - 2 * margin \<and> nw < 1
                  else nh = H - 2 * margin - label_height th (W, H) label \<and> nh < 1))
         \<and> (\<exists>e. resize_and_align_image th im (W, H) margin label = Inl e)"
proof (cases "new_size im (W, H) margin (label_height th (W, H) label)")
  case (Inl e)
  then show ?thesis by (simp add: resize_and_align_image_def)
next
  case (Inr new)
  obtain nw nh where new: "new = (nw, nh)" by (cases new)
  from Inr have h: "height im \<noteq> 0"
    by (auto simp: new_size_def split: if_splits)
  show ?thesis
  proof (cases "(of_nat (width im) / of_nat (height im) :: rat) > of_int W / of_int H")
    case True
    with Inr new h have 1: "nw = W - 2 * margin" and 2: "width im \<noteq> 0"
      by (auto simp: new_size_def Let_def split: if_splits)
    from True assms 1 have "nw < 1" by simp
    with h 2 have "resize im (nw, nh) = Inl ValueError"
      by (intro resize_below_one) auto
    with Inr new True 1 \<open>nw < 1\<close> show ?thesis
      by (simp add: resize_and_align_image_def)
  next
    case False
    with Inr new h have 1: "nh = H - 2 * margin - label_height th (W, H) label"
      by (auto simp: new_size_def Let_def split: if_splits)
    from False assms 1 have lt: "nh < 1" by simp
    have "resize im (nw, nh) = Inl ValueError"
      using lt h by (auto simp: resize_def)
    with Inr new False 1 lt show ?thesis
      by (simp add: resize_and_align_image_def)
  qed
qed

theorem unusable_area_fails_witness:
  "(if (of_nat (width \<lparr>width = 1, height = 2, pixels = 0\<rparr>)
          / of_nat (height \<lparr>width = 1, height = 2, pixels = 0\<rparr>) :: rat) > of_int 595 / of_int 842
    then 595 - 2 * 421 else 842 - 2 * 421 - label_height (\<lambda>fs l. 12) (595, 842) None) \<le> 0
   \<and> new_size \<lparr>width = 1, height = 2, pixels = 0\<rparr> (595, 842) 421
         (label_height (\<lambda>fs l. 12) (595, 842) None) = Inr (0, 0)
   \<and> (\<exists>e. resize_and_align_image (\<lambda>fs l. 12) \<lparr>width = 1, height = 2, pixels = 0\<rparr> (595, 842) 421
           None = Inl e)"
proof -
  have h: "(if (of_nat (width \<lparr>width = 1, height = 2, pixels = 0\<rparr>)
          / of_nat (height \<lparr>width = 1, height = 2, pixels = 0\<rparr>) :: rat) > of_int 595 / of_int 842
    then 595 - 2 * 421 else 842 - 2 * 421 - label_height (\<lambda>fs l. 12) (595, 842) None) \<le> 0"
    by (simp add: label_height_def)
  have n: "new_size \<lparr>width = 1, height = 2, pixels = 0\<rparr> (595, 842) 421
         (label_height (\<lambda>fs l. 12) (595, 842) None) = Inr (0, 0)"
    by (simp add: new_size_def label_height_def py_round_def)
  from unusable_area_fails [OF h] h n show ?thesis by blast
qed

section \<open>The batch pipeline: verified properties\<close>

lemma group_pages_Nil [simp]: "group_pages k [] = []"
  by (simp add: group_pages.simps)

lemma group_pages_single:
  assumes "xs \<noteq> []" and "length xs \<le> k"
  shows "group_pages k xs = [xs]"
proof -
  from assms have "0 < k" by (cases xs) auto
  with assms show ?thesis by (subst group_pages.simps) auto
qed

lemma group_pages_full:
  assumes "length xs = k" and "0 < k"
  shows "group_pages k (xs @ ys) = xs # group_pages k ys"
  using assms by (subst group_pages.simps) auto

lemma concat_group_pages: "0 < k \<Longrightarrow> concat (group_pages k xs) = xs"
proof (induction k xs rule: group_pages.induct)
  case (1 k xs)
  then show ?case by (subst group_pages.simps) auto
qed

lemma group_pages_sizes:
  "p \<in> set (group_pages k xs) \<Longrightarrow> p \<noteq> [] \<and> length p \<le> k"
proof (induction k xs rule: group_pages.induct)
  case (1 k xs)
  from "1.prems" have ne: "\<not> (k = 0 \<or> xs = [])"
    by (subst (asm) group_pages.simps) (auto split: if_splits)
  with "1.prems" have "p = take k xs \<or> p \<in> set (group_pages k (drop k xs))"
    by (subst (asm) group_pages.simps) auto
  with ne "1.IH" show ?case by auto
qed

lemma group_pages_butlast:
  "p \<in> set (butlast (group_pages k xs)) \<Longrightarrow> length p = k"
proof (induction k xs rule: group_pages.induct)
  case (1 k xs)
  show ?case
  proof (cases "k = 0 \<or> xs = []")
    case True
    with "1.prems" show ?thesis by (simp add: group_pages.simps)
  next
    case False
    then have eq: "group_pages k xs = take k xs # group_pages k (drop k xs)"
      by (subst group_pages.simps) simp
    show ?thesis
    proof (cases "group_pages k (drop k xs) = []")
      case True
      with eq "1.prems" show ?thesis by simp
    next
      case ne: False
      then have "drop k xs \<noteq> []" by auto
      then have "length (take k xs) = k" by simp
      with eq ne "1.prems" "1.IH" [OF False] show ?thesis by auto
    qed
  qed
qed

lemma length_group_pages:
  assumes "0 < k"
  shows "int (length (group_pages k xs)) = \<lceil>(of_nat (length xs) :: rat) / of_nat k\<rceil>"
  using assms
proof (induction k xs rule: group_pages.induct)
  case (1 k xs)
  show ?case
  proof (cases "xs = []")
    case True
    then show ?thesis by simp
  next
    case False
    with "1.prems" have eq: "group_pages k xs = take k xs # group_pages k (drop k xs)"
      by (subst group_pages.simps) simp
    from False "1.prems" "1.IH" have IH:
      "int (length (group_pages k (drop k xs))) = \<lceil>(of_nat (length xs - k) :: rat) / of_nat k\<rceil>"
      by simp
    show ?thesis
    proof (cases "k \<le> length xs")
      case True
      then have "(of_nat (length xs) :: rat) / of_nat k = of_nat (length xs - k) / of_nat k + 1"
        using "1.prems" by (simp add: of_nat_diff field_simps)
      with eq IH show ?thesis by simp
    next
      case lt: False
      with False "1.prems" have "0 < (of_nat (length xs) :: rat) / of_nat k"
        and "(of_nat (length xs) :: rat) / of_nat k \<le> 1"
        by simp_all
      then have "\<lceil>(of_nat (length xs) :: rat) / of_nat k\<rceil> = 1"
        by (intro ceiling_unique) simp_all
      with eq IH lt show ?thesis by simp
    qed
  qed
qed

lemma resolve_cwd: "cwd w' = cwd w \<Longrightarrow> resolve w' path = resolve w path"
  by (simp add: resolve_def)

lemma save_file_simps [simp]:
  "cwd (save_file w path c) = cwd w"
  "listdir (save_file w path c) = listdir w"
  "ctimes (save_file w path c) = ctimes w"
  "stdout (save_file w path c) = stdout w"
  "oplog (save_file w path c) = oplog w @ [Saved (resolve w path)]"
  "map_of (files (save_file w path c)) = (map_of (files w))(resolve w path \<mapsto> c)"
  by (simp_all add: save_file_def update_conv')

lemma print_simps [simp]:
  "cwd (print w msg) = cwd w"
  "listdir (print w msg) = listdir w"
  "ctimes (print w msg) = ctimes w"
  "stdout (print w msg) = stdout w @ [msg]"
  "oplog (print w msg) = oplog w"
  "files (print w msg) = files w"
  by (simp_all add: print_def)

lemma os_remove_Inr:
  assumes "os_remove w path = Inr w'"
  shows "cwd w' = cwd w" and "listdir w' = listdir w" and "ctimes w' = ctimes w"
    and "stdout w' = stdout w" and "oplog w' = oplog w @ [Removed (resolve w path)]"
    and "map_of (files w') = (map_of (files w))(resolve w path := None)"
  using assms by (auto simp: os_remove_def delete_conv' split: option.splits)

lemma remove_all_Inr:
  assumes "remove_all w paths = Inr w'"
  shows "cwd w' = cwd w \<and> listdir w' = listdir w \<and> ctimes w' = ctimes w \<and> stdout w' = stdout w
    \<and> oplog w' = oplog w @ map (\<lambda>p. Removed (resolve w p)) paths
    \<and> (\<forall>q. map_of (files w') q
           = (if q \<in> resolve w ` set paths then None else map_of (files w) q))"
  using assms
proof (induction paths arbitrary: w)
  case Nil
  then show ?case by simp
next
  case (Cons p ps)
  from Cons.prems obtain w1 where 1: "os_remove w p = Inr w1" and 2: "remove_all w1 ps = Inr w'"
    by (auto split: sum.splits)
  note r = os_remove_Inr [OF 1]
  have res: "resolve w1 = resolve w"
    using r(1) by (simp add: resolve_def fun_eq_iff)
  from Cons.IH [OF 2] have ih: "cwd w' = cwd w1" "listdir w' = listdir w1" "ctimes w' = ctimes w1"
    "stdout w' = stdout w1" "oplog w' = oplog w1 @ map (\<lambda>p. Removed (resolve w1 p)) ps"
    "\<And>q. map_of (files w') q = (if q \<in> resolve w1 ` set ps then None else map_of (files w1) q)"
    by simp_all
  have "map_of (files w') q
      = (if q \<in> resolve w ` set (p # ps) then None else map_of (files w) q)" for q
    by (simp add: ih(6) r(6) res)
  moreover have "oplog w' = oplog w @ map (\<lambda>p. Removed (resolve w p)) (p # ps)"
    by (simp add: ih(5) r(5) res)
  ultimately show ?case
    by (simp add: ih(1-4) r(1-4))
qed

lemma with_keys_Inr: "with_keys key xs = Inr kxs \<Longrightarrow> map snd kxs = xs"
proof (induction xs arbitrary: kxs)
  case Nil
  then show ?case by simp
next
  case (Cons x xs)
  from Cons.prems obtain k kxs' where "key x = Inr k" "with_keys key xs = Inr kxs'"
    "kxs = (k, x) # kxs'"
    by (auto split: sum.splits)
  with Cons.IH [of kxs'] show ?case by simp
qed

lemma insert_by_Inr:
  "insert_by lt kx acc = Inr r \<Longrightarrow> set r = insert kx (set acc) \<and> length r = Suc (length acc)"
proof (induction acc arbitrary: r)
  case Nil
  then show ?case by auto
next
  case (Cons ky rest)
  show ?case
  proof (cases "lt (fst kx) (fst ky)")
    case (Inl e)
    with Cons.prems show ?thesis by simp
  next
    case (Inr b)
    show ?thesis
    proof (cases b)
      case True
      with Inr Cons.prems show ?thesis by auto
    next
      case False
      with Inr Cons.prems obtain r' where 1: "insert_by lt kx rest = Inr r'" and 2: "r = ky # r'"
        by (auto split: sum.splits)
      from Cons.IH [OF 1] 2 show ?thesis by auto
    qed
  qed
qed

lemma sort_loop_Inr:
  "sort_loop lt acc kxs = Inr r \<Longrightarrow> set r = set acc \<union> set kxs \<and> length r = length acc + length kxs"
proof (induction kxs arbitrary: acc)
  case Nil
  then show ?case by simp
next
  case (Cons kx kxs)
  from Cons.prems obtain acc' where 1: "insert_by lt kx acc = Inr acc'"
    and 2: "sort_loop lt acc' kxs = Inr r"
    by (auto split: sum.splits)
  from Cons.IH [OF 2] insert_by_Inr [OF 1] show ?case by auto
qed

lemma list_sort_Inr:
  assumes "list_sort key lt xs = Inr ys"
  shows "set ys = set xs \<and> length ys = length xs"
proof -
  from assms obtain kxs r where 1: "with_keys key xs = Inr kxs"
    and 2: "sort_loop lt [] kxs = Inr r" and 3: "ys = map snd r"
    by (auto simp: list_sort_def split: sum.splits)
  from sort_loop_Inr [OF 2] have "set r = set kxs" "length r = length kxs" by simp_all
  then have "set (map snd r) = set (map snd kxs)" "length (map snd r) = length (map snd kxs)"
    by simp_all
  with with_keys_Inr [OF 1] 3 show ?thesis by simp
qed

lemma sort_images_Inr:
  assumes "sort_images w directory sort_by_time images = Inr simages"
  shows "set simages = set images \<and> length simages = length images"
  using assms by (auto simp: sort_images_def dest: list_sort_Inr split: if_splits)

lemma suffix_same_length: "suffix a s \<Longrightarrow> suffix b s \<Longrightarrow> length a = length b \<Longrightarrow> a = b"
  by (auto simp: suffix_def)

lemma suffix_os_path_join: "suffix b (os_path_join a b)"
  by (simp add: os_path_join_def suffix_def)

lemma suffix_resolve: "suffix path (resolve w path)"
  using suffix_os_path_join by (simp add: resolve_def)

lemma suffix_lower: "suffix a b \<Longrightarrow> suffix (lower a) (lower b)"
  by (auto simp: suffix_def lower_def)

lemma is_image_suffix:
  assumes "is_image f"
  shows "suffix ''ng'' (lower f) \<or> suffix ''pg'' (lower f) \<or> suffix ''eg'' (lower f)
       \<or> suffix ''mp'' (lower f) \<or> suffix ''if'' (lower f) \<or> suffix ''ff'' (lower f)"
proof -
  from assms consider "suffix ''.png'' (lower f)" | "suffix ''.jpg'' (lower f)"
    | "suffix ''.jpeg'' (lower f)" | "suffix ''.bmp'' (lower f)" | "suffix ''.gif'' (lower f)"
    | "suffix ''.tiff'' (lower f)"
    by (auto simp: is_image_def)
  then show ?thesis
    by cases (blast dest: suffix_ConsD)+
qed

lemma image_path_not_pdf:
  assumes img: "is_image f" and f: "suffix f p"
  shows "\<not> suffix ''df'' p"
proof
  assume df: "suffix ''df'' p"
  from is_image_suffix [OF img] obtain e where e: "suffix e (lower f)" "length e = 2" "e \<noteq> ''df''"
    by fastforce
  then have len: "2 \<le> length f"
    using suffix_length_le [of e "lower f"] by (simp add: lower_def)
  from df f have "suffix ''df'' f \<or> suffix f ''df''"
    by (rule suffix_same_cases)
  then have "suffix ''df'' f"
  proof
    assume "suffix f ''df''"
    with len have "f = ''df''"
      using suffix_length_le [of f "''df''"] suffix_same_length [of f "''df''" "''df''"] by simp
    then show ?thesis by simp
  qed
  then have "suffix (lower ''df'') (lower f)"
    by (rule suffix_lower)
  moreover have "lower ''df'' = ''df''"
    by (simp add: lower_def char_lower_def ord_def)
  ultimately have "e = ''df''"
    using e by (intro suffix_same_length [of e "lower f"]) simp_all
  with e show False by simp
qed

lemma str_nat_last: "str_nat n \<noteq> [] \<and> re_digit (last (str_nat n))"
proof (induction n rule: str_nat.induct)
  case (1 n)
  have "re_digit (char_of (48 + n mod 10))"
    by (simp add: re_digit_def ord_def)
  moreover have "n < 10 \<Longrightarrow> re_digit (char_of (48 + n))"
    by (simp add: re_digit_def ord_def)
  ultimately show ?case
    by (subst (1 2) str_nat.simps) simp
qed

lemma temp_pdf_suffix:
  "suffix (last (str_nat n) # ''.pdf'') (temp_pdf n)" "suffix ''df'' (temp_pdf n)"
proof -
  have "str_nat n = butlast (str_nat n) @ [last (str_nat n)]"
    using str_nat_last by simp
  then have "temp_pdf n = (''temp_page_'' @ butlast (str_nat n)) @ (last (str_nat n) # ''.pdf'')"
    unfolding temp_pdf_def by (metis append.assoc append_Cons append_Nil)
  then show "suffix (last (str_nat n) # ''.pdf'') (temp_pdf n)"
    unfolding suffix_def by blast
  then show "suffix ''df'' (temp_pdf n)"
    by (blast dest: suffix_ConsD)
qed



lemma output_suffix:
  "suffix ''t.pdf'' (resolve w (os_path_join directory ''combined_output.pdf''))"
  "suffix ''df'' (resolve w (os_path_join directory ''combined_output.pdf''))"
proof -
  have "suffix ''t.pdf'' ''combined_output.pdf''"
    by (simp add: suffix_to_prefix)
  then show 1: "suffix ''t.pdf'' (resolve w (os_path_join directory ''combined_output.pdf''))"
    using suffix_os_path_join suffix_resolve suffix_order.trans by blast
  then show "suffix ''df'' (resolve w (os_path_join directory ''combined_output.pdf''))"
    by (blast dest: suffix_ConsD)
qed

lemma temp_not_output:
  "resolve w (temp_pdf n) \<noteq> resolve w (os_path_join directory ''combined_output.pdf'')"
proof
  assume eq: "resolve w (temp_pdf n) = resolve w (os_path_join directory ''combined_output.pdf'')"
  have "suffix (last (str_nat n) # ''.pdf'') (resolve w (temp_pdf n))"
    using temp_pdf_suffix(1) suffix_resolve suffix_order.trans by blast
  with eq output_suffix(1) have "last (str_nat n) # ''.pdf'' = ''t.pdf''"
    by (intro suffix_same_length) simp_all
  with str_nat_last [of n] show False
    by (simp add: re_digit_def ord_def)
qed

lemma image_not_pdf_path:
  assumes "is_image f"
  shows "resolve w (os_path_join directory f) \<noteq> resolve w (temp_pdf n)"
    "resolve w (os_path_join directory f)
           \<noteq> resolve w (os_path_join directory' ''combined_output.pdf'')"
proof -
  have "suffix f (resolve w (os_path_join directory f))"
    using suffix_os_path_join suffix_resolve suffix_order.trans by blast
  from image_path_not_pdf [OF assms this]
  have n: "\<not> suffix ''df'' (resolve w (os_path_join directory f))" .
  have "suffix ''df'' (resolve w (temp_pdf n))"
    using temp_pdf_suffix(2) suffix_resolve suffix_order.trans by blast
  with n show "resolve w (os_path_join directory f) \<noteq> resolve w (temp_pdf n)"
    by auto
  from n output_suffix(2) [of w directory']
  show "resolve w (os_path_join directory f)
           \<noteq> resolve w (os_path_join directory' ''combined_output.pdf'')"
    by auto
qed

lemma merger_append_saved:
  "merger_append (save_file w path (PdfFile pages)) path merger = Inr (merger @ pages)"
  by (simp add: merger_append_def resolve_def)

lemma loop_body_Inr:
  assumes "loop_body th d k m lab psz n i f (st, w) = Inr (st', w')"
  shows "\<exists>img cell. image_open w (os_path_join d f) = Inr img
     \<and> resize_and_align_image th img psz m (make_label lab (image_counter st)) = Inr cell
     \<and> image_counter st' = image_counter st + 1
     \<and> (if (int i + 1) mod k = 0 \<or> int i = int n - 1
        then current_images st' = [] \<and> page_number st' = page_number st + 1
           \<and> pdf_merger st' = pdf_merger st @ [combine_page (snd psz) (current_images st @ [cell])]
           \<and> w' = save_file w (temp_pdf (page_number st))
                    (PdfFile [combine_page (snd psz) (current_images st @ [cell])])
        else current_images st' = current_images st @ [cell] \<and> page_number st' = page_number st
           \<and> pdf_merger st' = pdf_merger st \<and> w' = w)"
proof -
  from assms obtain img where img: "image_open w (os_path_join d f) = Inr img"
    by (auto simp: loop_body_def split: sum.splits)
  with assms obtain cell where cell:
    "resize_and_align_image th img psz m (make_label lab (image_counter st)) = Inr cell"
    by (auto simp: loop_body_def split: sum.splits)
  from assms img cell show ?thesis
    by (auto simp: loop_body_def Let_def merger_append_saved split: if_splits)
qed

lemma resolve_save_file [simp]: "resolve (save_file w path c) q = resolve w q"
  by (simp add: resolve_def)

lemma image_open_save_temp:
  assumes "is_image f"
  shows "image_open (save_file w (temp_pdf j) c) (os_path_join d f) = image_open w (os_path_join d f)"
  using image_not_pdf_path(1) [OF assms, of w d j] by (simp add: image_open_def)

lemma flush_mod:
  assumes "1 \<le> k"
  shows "((int i + 1) mod k = 0) = (Suc i mod nat k = 0)"
proof -
  have "int (Suc i mod nat k) = (int i + 1) mod k"
    using assms by (simp add: zmod_int add.commute)
  then show ?thesis
    by (metis of_nat_eq_0_iff)
qed

lemma process_images_world:
  "process_images th d k m lab psz n i fs (st, w) = Inr (st', w') \<Longrightarrow>
   page_number st \<le> page_number st' \<and> cwd w' = cwd w \<and> listdir w' = listdir w
   \<and> ctimes w' = ctimes w \<and> stdout w' = stdout w
   \<and> oplog w' = oplog w @ map (\<lambda>j. Saved (resolve w (temp_pdf j))) [page_number st ..< page_number st']
   \<and> (\<forall>q. (\<forall>j. q \<noteq> resolve w (temp_pdf j)) \<longrightarrow> map_of (files w') q = map_of (files w) q)"
proof (induction fs arbitrary: i st w)
  case Nil
  then show ?case by simp
next
  case (Cons f rest)
  from Cons.prems obtain st1 w1 where
    step: "loop_body th d k m lab psz n i f (st, w) = Inr (st1, w1)"
    and rest: "process_images th d k m lab psz n (i + 1) rest (st1, w1) = Inr (st', w')"
    by (auto split: sum.splits)
  from loop_body_Inr [OF step] obtain c where
    br: "(page_number st1 = page_number st + 1 \<and> w1 = save_file w (temp_pdf (page_number st)) c)
       \<or> (page_number st1 = page_number st \<and> w1 = w)"
    by (auto split: if_splits)
  from Cons.IH [OF rest] have ih: "page_number st1 \<le> page_number st'" "cwd w' = cwd w1"
    "listdir w' = listdir w1" "ctimes w' = ctimes w1" "stdout w' = stdout w1"
    "oplog w' = oplog w1 @ map (\<lambda>j. Saved (resolve w1 (temp_pdf j))) [page_number st1 ..< page_number st']"
    "\<And>q. (\<forall>j. q \<noteq> resolve w1 (temp_pdf j)) \<Longrightarrow> map_of (files w') q = map_of (files w1) q"
    by simp_all
  from br show ?case
  proof
    assume a: "page_number st1 = page_number st + 1 \<and> w1 = save_file w (temp_pdf (page_number st)) c"
    then have lt: "page_number st < page_number st'" using ih(1) by simp
    have "oplog w' = oplog w @ map (\<lambda>j. Saved (resolve w (temp_pdf j))) [page_number st ..< page_number st']"
      using a ih(6) lt by (simp add: upt_conv_Cons)
    moreover have "map_of (files w') q = map_of (files w) q" if "\<forall>j. q \<noteq> resolve w (temp_pdf j)" for q
      using that a ih(7) [of q] by simp
    ultimately show ?thesis
      using a ih(1-5) by simp
  next
    assume a: "page_number st1 = page_number st \<and> w1 = w"
    with ih show ?thesis by simp
  qed
qed

lemma process_images_pages:
  assumes k: "1 \<le> k"
  shows "\<lbrakk>\<forall>f\<in>set fs. is_image f;
          process_images th d k m lab psz n i fs (st, w) = Inr (st', w');
          n = i + length fs; fs \<noteq> []; length (current_images st) = i mod nat k\<rbrakk>
   \<Longrightarrow> \<exists>cells. length cells = length fs
      \<and> (\<forall>j<length fs. \<exists>img. image_open w (os_path_join d (fs ! j)) = Inr img
            \<and> resize_and_align_image th img psz m (make_label lab (image_counter st + j))
                = Inr (cells ! j))
      \<and> pdf_merger st' = pdf_merger st
           @ map (combine_page (snd psz)) (group_pages (nat k) (current_images st @ cells))
      \<and> page_number st' = page_number st
           + length (group_pages (nat k) (current_images st @ cells))"
proof (induction fs arbitrary: i st w)
  case Nil
  then show ?case by simp
next
  case (Cons f rest)
  let ?K = "nat k"
  let ?cur = "current_images st"
  from Cons.prems(2) obtain st1 w1 where
    step: "loop_body th d k m lab psz n i f (st, w) = Inr (st1, w1)"
    and rest: "process_images th d k m lab psz n (i + 1) rest (st1, w1) = Inr (st', w')"
    by (auto split: sum.splits)
  from loop_body_Inr [OF step] obtain img cell where
    img: "image_open w (os_path_join d f) = Inr img"
    and cell: "resize_and_align_image th img psz m (make_label lab (image_counter st)) = Inr cell"
    and cnt: "image_counter st1 = image_counter st + 1"
    and br: "if (int i + 1) mod k = 0 \<or> int i = int n - 1
        then current_images st1 = [] \<and> page_number st1 = page_number st + 1
           \<and> pdf_merger st1 = pdf_merger st @ [combine_page (snd psz) (?cur @ [cell])]
           \<and> w1 = save_file w (temp_pdf (page_number st))
                    (PdfFile [combine_page (snd psz) (?cur @ [cell])])
        else current_images st1 = ?cur @ [cell] \<and> page_number st1 = page_number st
           \<and> pdf_merger st1 = pdf_merger st \<and> w1 = w"
    by blast
  have K: "0 < ?K" using k by simp
  have len: "length ?cur < ?K" using Cons.prems(5) K by simp
  show ?case
  proof (cases "rest = []")
    case True
    with Cons.prems(3) have "int i = int n - 1" by simp
    with br have f1: "page_number st1 = page_number st + 1"
      "pdf_merger st1 = pdf_merger st @ [combine_page (snd psz) (?cur @ [cell])]"
      by simp_all
    from True rest have fin: "st' = st1" by simp
    have gp: "group_pages ?K (?cur @ [cell]) = [?cur @ [cell]]"
      using len by (intro group_pages_single) simp_all
    have "length [cell] = length (f # rest)" using True by simp
    moreover have "\<forall>j<length (f # rest). \<exists>img. image_open w (os_path_join d ((f # rest) ! j)) = Inr img
            \<and> resize_and_align_image th img psz m (make_label lab (image_counter st + j))
                = Inr ([cell] ! j)"
      using True img cell by simp
    moreover have "pdf_merger st' = pdf_merger st
           @ map (combine_page (snd psz)) (group_pages ?K (?cur @ [cell]))"
      using fin f1 gp by simp
    moreover have "page_number st' = page_number st + length (group_pages ?K (?cur @ [cell]))"
      using fin f1 gp by simp
    ultimately show ?thesis by blast
  next
    case False
    with Cons.prems(3) have notlast: "int i \<noteq> int n - 1" by (cases rest) auto
    have imgs: "\<forall>f\<in>set rest. is_image f" using Cons.prems(1) by simp
    have n': "n = (i + 1) + length rest" using Cons.prems(3) by simp
    have open1: "image_open w1 (os_path_join d g) = image_open w (os_path_join d g)"
      if "is_image g" for g
      using br that by (auto simp: image_open_save_temp split: if_splits)
    show ?thesis
    proof (cases "(int i + 1) mod k = 0")
      case True
      then have full: "Suc i mod ?K = 0" using flush_mod [OF k] by simp
      then have "Suc (i mod ?K) = ?K"
        using K by (simp add: mod_Suc split: if_splits)
      with Cons.prems(5) have lenK: "length (?cur @ [cell]) = ?K" by simp
      from True br have f1: "current_images st1 = []" "page_number st1 = page_number st + 1"
        "pdf_merger st1 = pdf_merger st @ [combine_page (snd psz) (?cur @ [cell])]"
        by simp_all
      have inv: "length (current_images st1) = (i + 1) mod ?K"
        using f1 full by simp
      from Cons.IH [OF imgs rest n' False inv] obtain cells where
        c1: "length cells = length rest"
        and c2: "\<forall>j<length rest. \<exists>img. image_open w1 (os_path_join d (rest ! j)) = Inr img
            \<and> resize_and_align_image th img psz m (make_label lab (image_counter st1 + j))
                = Inr (cells ! j)"
        and c3: "pdf_merger st' = pdf_merger st1
           @ map (combine_page (snd psz)) (group_pages ?K (current_images st1 @ cells))"
        and c4: "page_number st' = page_number st1
           + length (group_pages ?K (current_images st1 @ cells))"
        by blast
      have gp: "group_pages ?K (?cur @ cell # cells) = (?cur @ [cell]) # group_pages ?K cells"
        using group_pages_full [OF lenK K, of cells] by simp
      have "length (cell # cells) = length (f # rest)" using c1 by simp
      moreover have "\<forall>j<length (f # rest). \<exists>img. image_open w (os_path_join d ((f # rest) ! j)) = Inr img
            \<and> resize_and_align_image th img psz m (make_label lab (image_counter st + j))
                = Inr ((cell # cells) ! j)"
      proof (intro allI impI)
        fix j assume j: "j < length (f # rest)"
        show "\<exists>img. image_open w (os_path_join d ((f # rest) ! j)) = Inr img
            \<and> resize_and_align_image th img psz m (make_label lab (image_counter st + j))
                = Inr ((cell # cells) ! j)"
        proof (cases j)
          case 0
          with img cell show ?thesis by simp
        next
          case (Suc j')
          with j have j': "j' < length rest" by simp
          then have im: "is_image (rest ! j')" using imgs by simp
          from c2 j' obtain img' where
            "image_open w1 (os_path_join d (rest ! j')) = Inr img'"
            "resize_and_align_image th img' psz m (make_label lab (image_counter st1 + j'))
               = Inr (cells ! j')"
            by blast
          with open1 [OF im] Suc cnt show ?thesis by (intro exI [of _ img']) simp
        qed
      qed
      moreover have "pdf_merger st' = pdf_merger st
           @ map (combine_page (snd psz)) (group_pages ?K (?cur @ cell # cells))"
        using c3 f1 gp by simp
      moreover have "page_number st' = page_number st
           + length (group_pages ?K (?cur @ cell # cells))"
        using c4 f1 gp by simp
      ultimately show ?thesis by blast
    next
      case noflush: False
      then have nz: "Suc i mod ?K \<noteq> 0" using flush_mod [OF k] by simp
      from noflush notlast br have f1: "current_images st1 = ?cur @ [cell]"
        "page_number st1 = page_number st" "pdf_merger st1 = pdf_merger st"
        by simp_all
      have inv: "length (current_images st1) = (i + 1) mod ?K"
        using f1 nz Cons.prems(5) by (simp add: mod_Suc split: if_splits)
      from Cons.IH [OF imgs rest n' False inv] obtain cells where
        c1: "length cells = length rest"
        and c2: "\<forall>j<length rest. \<exists>img. image_open w1 (os_path_join d (rest ! j)) = Inr img
            \<and> resize_and_align_image th img psz m (make_label lab (image_counter st1 + j))
                = Inr (cells ! j)"
        and c3: "pdf_merger st' = pdf_merger st1
           @ map (combine_page (snd psz)) (group_pages ?K (current_images st1 @ cells))"
        and c4: "page_number st' = page_number st1
           + length (group_pages ?K (current_images st1 @ cells))"
        by blast
      have "length (cell # cells) = length (f # rest)" using c1 by simp
      moreover have "\<forall>j<length (f # rest). \<exists>img. image_open w (os_path_join d ((f # rest) ! j)) = Inr img
            \<and> resize_and_align_image th img psz m (make_label lab (image_counter st + j))
                = Inr ((cell # cells) ! j)"
      proof (intro allI impI)
        fix j assume j: "j < length (f # rest)"
        show "\<exists>img. image_open w (os_path_join d ((f # rest) ! j)) = Inr img
            \<and> resize_and_align_image th img psz m (make_label lab (image_counter st + j))
                = Inr ((cell # cells) ! j)"
        proof (cases j)
          case 0
          with img cell show ?thesis by simp
        next
          case (Suc j')
          with j have j': "j' < length rest" by simp
          then have im: "is_image (rest ! j')" using imgs by simp
          from c2 j' obtain img' where
            "image_open w1 (os_path_join d (rest ! j')) = Inr img'"
            "resize_and_align_image th img' psz m (make_label lab (image_counter st1 + j'))
               = Inr (cells ! j')"
            by blast
          with open1 [OF im] Suc cnt show ?thesis by (intro exI [of _ img']) simp
        qed
      qed
      moreover have "pdf_merger st' = pdf_merger st
           @ map (combine_page (snd psz)) (group_pages ?K (?cur @ cell # cells))"
        using c3 f1 by simp
      moreover have "page_number st' = page_number st
           + length (group_pages ?K (?cur @ cell # cells))"
        using c4 f1 by simp
      ultimately show ?thesis by blast
    qed
  qed
qed

lemma resolve_print [simp]: "resolve (print w msg) q = resolve w q"
  by (simp add: resolve_def)

lemma resize_and_align_image_size:
  assumes "resize_and_align_image th im psz m label = Inr c"
  shows "0 \<le> fst psz \<and> 0 \<le> snd psz"
  using assms by (auto simp: resize_and_align_image_def split: sum.splits if_splits)

lemma process_images_first:
  assumes "process_images th d k m lab psz n i (f # rest) (st, w) = Inr sw"
  shows "0 \<le> snd psz"
proof -
  from assms obtain st1 w1 where "loop_body th d k m lab psz n i f (st, w) = Inr (st1, w1)"
    by (auto split: sum.splits)
  from loop_body_Inr [OF this] resize_and_align_image_size show ?thesis by blast
qed

lemma images_to_pdf_success:
  assumes run: "images_to_pdf th w d k del m lab sbt = Inr w'"
    and ls: "os_listdir w d = Inr names" and ne: "filter is_image names \<noteq> []"
  shows "\<exists>images cells.
      sort_images w d sbt (filter is_image names) = Inr images
    \<and> 1 \<le> k
    \<and> length cells = length images
    \<and> (\<forall>j<length images. \<exists>img. image_open w (os_path_join d (images ! j)) = Inr img
          \<and> resize_and_align_image th img (fst A4_PAGE_SIZE, snd A4_PAGE_SIZE div k) m
               (make_label lab (1 + j)) = Inr (cells ! j))
    \<and> map_of (files w') (resolve w (os_path_join d ''combined_output.pdf''))
        = Some (PdfFile (map (combine_page (snd A4_PAGE_SIZE div k)) (group_pages (nat k) cells)))
    \<and> (del \<longrightarrow> (\<forall>f\<in>set images. map_of (files w') (resolve w (os_path_join d f)) = None))
    \<and> oplog w' = oplog w
        @ map (\<lambda>j. Saved (resolve w (temp_pdf j))) [1 ..< Suc (length (group_pages (nat k) cells))]
        @ [Saved (resolve w (os_path_join d ''combined_output.pdf''))]
        @ map (\<lambda>j. Removed (resolve w (temp_pdf j))) [1 ..< Suc (length (group_pages (nat k) cells))]
        @ (if del then map (\<lambda>f. Removed (resolve w (os_path_join d f))) images else [])
    \<and> stdout w' = stdout w
        @ [''PDF created successfully at: '' @ os_path_join d ''combined_output.pdf'']
        @ (if del then [''Original images have been deleted.''] else [])
    \<and> cwd w' = cwd w"
proof (cases "sort_images w d sbt (filter is_image names)")
  case (Inl e)
  with run ls ne show ?thesis by (simp add: images_to_pdf_def)
next
  case (Inr images)
  let ?psz = "(fst A4_PAGE_SIZE, snd A4_PAGE_SIZE div k)"
  let ?st0 = "\<lparr>current_images = [], page_number = 1, image_counter = 1, pdf_merger = []\<rparr>"
  let ?out = "os_path_join d ''combined_output.pdf''"
  let ?msg = "''PDF created successfully at: '' @ ?out"
  from sort_images_Inr [OF Inr] ne have im: "set images = set (filter is_image names)"
    "images \<noteq> []" by auto
  then have isim: "\<forall>f\<in>set images. is_image f" by simp
  from run ls ne Inr have k0: "k \<noteq> 0"
    by (auto simp: images_to_pdf_def split: if_splits)
  with run ls ne Inr have run2:
    "(case process_images th d k m lab ?psz (length images) 0 images (?st0, w) of
        Inl e \<Rightarrow> Inl e
      | Inr sw \<Rightarrow>
         (case remove_all (save_file (snd sw) ?out (PdfFile (pdf_merger (fst sw))))
                 (map temp_pdf [1 ..< page_number (fst sw)]) of
            Inl e \<Rightarrow> Inl e
          | Inr w3 \<Rightarrow>
              if del
              then (case remove_all (print w3 ?msg) (map (os_path_join d) images) of
                      Inl e \<Rightarrow> Inl e
                    | Inr w5 \<Rightarrow> Inr (print w5 ''Original images have been deleted.''))
              else Inr (print w3 ?msg))) = Inr w'"
    by (simp add: images_to_pdf_def)
  then obtain st1 w1 where
    pr: "process_images th d k m lab ?psz (length images) 0 images (?st0, w) = Inr (st1, w1)"
    by (cases "process_images th d k m lab ?psz (length images) 0 images (?st0, w)") auto
  let ?w2 = "save_file w1 ?out (PdfFile (pdf_merger st1))"
  from run2 pr obtain w3 where
    rm: "remove_all ?w2 (map temp_pdf [1 ..< page_number st1]) = Inr w3"
    by (cases "remove_all ?w2 (map temp_pdf [1 ..< page_number st1])") auto
  with run2 pr have run4:
    "(if del
      then (case remove_all (print w3 ?msg) (map (os_path_join d) images) of
              Inl e \<Rightarrow> Inl e
            | Inr w5 \<Rightarrow> Inr (print w5 ''Original images have been deleted.''))
      else Inr (print w3 ?msg)) = Inr w'"
    by simp
  \<comment> \<open>the number of images per page is positive\<close>
  from im(2) obtain f rest where "images = f # rest" by (cases images) auto
  with pr have "0 \<le> snd A4_PAGE_SIZE div k"
    using process_images_first [of th d k m lab ?psz "length images" 0 f rest ?st0 w] by simp
  with k0 have k: "1 \<le> k"
    using neg_imp_zdiv_nonneg_iff [of k 842] by (cases "k < 0") (simp_all add: A4_PAGE_SIZE_def)
  \<comment> \<open>the loop\<close>
  from process_images_pages [OF k isim pr _ im(2)] obtain cells where
    c1: "length cells = length images"
    and c2: "\<forall>j<length images. \<exists>img. image_open w (os_path_join d (images ! j)) = Inr img
          \<and> resize_and_align_image th img ?psz m (make_label lab (1 + j)) = Inr (cells ! j)"
    and c3: "pdf_merger st1 = map (combine_page (snd A4_PAGE_SIZE div k)) (group_pages (nat k) cells)"
    and c4: "page_number st1 = Suc (length (group_pages (nat k) cells))"
    by auto
  from process_images_world [OF pr] have w1: "cwd w1 = cwd w" "stdout w1 = stdout w"
    "oplog w1 = oplog w @ map (\<lambda>j. Saved (resolve w (temp_pdf j))) [1 ..< page_number st1]"
    by simp_all
  have r1: "resolve w1 = resolve w"
    using w1(1) by (simp add: resolve_def fun_eq_iff)
  have r2: "resolve ?w2 = resolve w"
    using r1 by (simp add: fun_eq_iff)
  note r = remove_all_Inr [OF rm]
  have r3: "resolve w3 = resolve w"
    using r w1(1) by (simp add: resolve_def fun_eq_iff)
  have out3: "map_of (files w3) (resolve w ?out) = Some (PdfFile (pdf_merger st1))"
  proof -
    have "resolve w ?out \<noteq> resolve w (temp_pdf j)" for j
      by (rule not_sym) (rule temp_not_output)
    then have "resolve w ?out \<notin> resolve w ` set (map temp_pdf [1 ..< page_number st1])"
      by auto
    with r show ?thesis by (simp add: r2 r1)
  qed
  have log3: "oplog w3 = oplog w
        @ map (\<lambda>j. Saved (resolve w (temp_pdf j))) [1 ..< page_number st1]
        @ [Saved (resolve w ?out)]
        @ map (\<lambda>j. Removed (resolve w (temp_pdf j))) [1 ..< page_number st1]"
    using r w1(3) by (simp add: r2 r1 comp_def)
  have std3: "stdout w3 = stdout w" "cwd w3 = cwd w"
    using r w1 by simp_all
  show ?thesis
  proof (cases del)
    case False
    with run4 have w': "w' = print w3 ?msg" by simp
    from False w' out3 log3 std3 c1 c2 c3 c4 Inr k show ?thesis
      by (intro exI [of _ images] exI [of _ cells]) simp
  next
    case True
    with run4 obtain w5 where
      rm5: "remove_all (print w3 ?msg) (map (os_path_join d) images) = Inr w5"
      and w': "w' = print w5 ''Original images have been deleted.''"
      by (cases "remove_all (print w3 ?msg) (map (os_path_join d) images)") auto
    note r5 = remove_all_Inr [OF rm5]
    have out5: "map_of (files w5) (resolve w ?out) = Some (PdfFile (pdf_merger st1))"
    proof -
      have "resolve w ?out \<noteq> resolve w (os_path_join d f)" if "f \<in> set images" for f
        using that isim by (intro not_sym [OF image_not_pdf_path(2)]) simp
      then have "resolve w ?out \<notin> resolve w ` set (map (os_path_join d) images)"
        by auto
      with r5 out3 show ?thesis by (simp add: r3)
    qed
    have gone: "\<forall>f\<in>set images. map_of (files w5) (resolve w (os_path_join d f)) = None"
      using r5 by (simp add: r3)
    have log5: "oplog w5 = oplog w3 @ map (\<lambda>f. Removed (resolve w (os_path_join d f))) images"
      using r5 by (simp add: r3 comp_def)
    have std5: "stdout w5 = stdout w @ [?msg]" "cwd w5 = cwd w"
      using r5 std3 by simp_all
    from True w' out5 gone log5 log3 std5 c1 c2 c3 c4 Inr k show ?thesis
      by (intro exI [of _ images] exI [of _ cells]) simp
  qed
qed

lemma paste_all_fst [simp]: "map fst (paste_all h y cs) = cs"
  by (induction cs arbitrary: y) simp_all

lemma length_paste_all [simp]: "length (paste_all h y cs) = length cs"
  by (induction cs arbitrary: y) simp_all

lemma page_cells_combine_page [simp]: "page_cells (combine_page h cs) = paste_all h 0 cs"
  by (simp add: combine_page_def)

lemma scenario_runs:
  "\<not> isl (images_to_pdf scenario_font scenario ''/data'' 2 False 10 True False)"
  "\<not> isl (images_to_pdf scenario_font scenario ''/data'' 2 True 10 True False)"
  "os_listdir scenario ''/data'' = Inr [''a10.jpg'', ''notes.txt'', ''a2.jpg'', ''a1.jpg'']"
  "filter is_image [''a10.jpg'', ''notes.txt'', ''a2.jpg'', ''a1.jpg''] = [''a10.jpg'', ''a2.jpg'', ''a1.jpg'']"
  "sort_images scenario ''/data'' False [''a10.jpg'', ''a2.jpg'', ''a1.jpg''] = Inr [''a1.jpg'', ''a2.jpg'', ''a10.jpg'']"
  "os_listdir scenario ''/empty'' = Inr [''notes.txt'']"
  "filter is_image [''notes.txt''] = []"
  by code_simp+

text \<open>
  Claim C1: for a directory with \<open>N \<ge> 1\<close> recognized images, a successful run of
  \<^verbatim>\<open>images_to_pdf\<close> with \<open>k\<close> images per page saves \<open>ceil(N/k)\<close> one-page artifacts, and
  \<^verbatim>\<open>combined_output.pdf\<close> holds \<open>ceil(N/k)\<close> pages, each with at least one and at most \<open>k\<close>
  cells, every page but the last with exactly \<open>k\<close>. (A successful run has \<open>k \<ge> 1\<close>.)
\<close>

theorem page_count:
  assumes "images_to_pdf th w d k del m lab sbt = Inr w'"
    and "os_listdir w d = Inr names" and "filter is_image names \<noteq> []"
  shows "\<exists>pages rest.
      map_of (files w') (resolve w (os_path_join d ''combined_output.pdf'')) = Some (PdfFile pages)
    \<and> 1 \<le> k
    \<and> int (length pages) = \<lceil>(of_nat (length (filter is_image names)) :: rat) / of_int k\<rceil>
    \<and> (\<forall>p\<in>set pages. 1 \<le> length (page_cells p) \<and> int (length (page_cells p)) \<le> k)
    \<and> (\<forall>p\<in>set (butlast pages). int (length (page_cells p)) = k)
    \<and> oplog w' = oplog w
          @ map (\<lambda>j. Saved (resolve w (temp_pdf j))) [1 ..< Suc (length pages)] @ rest
    \<and> (\<forall>j. Saved (resolve w (temp_pdf j)) \<notin> set rest)"
proof -
  from images_to_pdf_success [OF assms] obtain images cells where
    srt: "sort_images w d sbt (filter is_image names) = Inr images"
    and k: "1 \<le> k"
    and len: "length cells = length images"
    and out: "map_of (files w') (resolve w (os_path_join d ''combined_output.pdf''))
        = Some (PdfFile (map (combine_page (snd A4_PAGE_SIZE div k)) (group_pages (nat k) cells)))"
    and log: "oplog w' = oplog w
        @ map (\<lambda>j. Saved (resolve w (temp_pdf j))) [1 ..< Suc (length (group_pages (nat k) cells))]
        @ [Saved (resolve w (os_path_join d ''combined_output.pdf''))]
        @ map (\<lambda>j. Removed (resolve w (temp_pdf j))) [1 ..< Suc (length (group_pages (nat k) cells))]
        @ (if del then map (\<lambda>f. Removed (resolve w (os_path_join d f))) images else [])"
    by blast
  let ?pages = "map (combine_page (snd A4_PAGE_SIZE div k)) (group_pages (nat k) cells)"
  let ?rest = "[Saved (resolve w (os_path_join d ''combined_output.pdf''))]
        @ map (\<lambda>j. Removed (resolve w (temp_pdf j))) [1 ..< Suc (length (group_pages (nat k) cells))]
        @ (if del then map (\<lambda>f. Removed (resolve w (os_path_join d f))) images else [])"
  have K: "0 < nat k" using k by simp
  from sort_images_Inr [OF srt] len have N: "length cells = length (filter is_image names)"
    by simp
  have 1: "int (length ?pages) = \<lceil>(of_nat (length (filter is_image names)) :: rat) / of_int k\<rceil>"
    using length_group_pages [OF K, of cells] N k by simp
  have 2: "\<forall>p\<in>set ?pages. 1 \<le> length (page_cells p) \<and> int (length (page_cells p)) \<le> k"
  proof
    fix p assume "p \<in> set ?pages"
    then obtain cs where cs: "cs \<in> set (group_pages (nat k) cells)"
      "p = combine_page (snd A4_PAGE_SIZE div k) cs" by auto
    from group_pages_sizes [OF cs(1)] have "cs \<noteq> []" "length cs \<le> nat k" by simp_all
    then have "1 \<le> length cs" "int (length cs) \<le> k" by (cases cs; simp)+
    with cs(2) show "1 \<le> length (page_cells p) \<and> int (length (page_cells p)) \<le> k" by simp
  qed
  have 3: "\<forall>p\<in>set (butlast ?pages). int (length (page_cells p)) = k"
  proof
    fix p assume "p \<in> set (butlast ?pages)"
    then obtain cs where cs: "cs \<in> set (butlast (group_pages (nat k) cells))"
      "p = combine_page (snd A4_PAGE_SIZE div k) cs" by (auto simp: map_butlast [symmetric])
    from group_pages_butlast [OF cs(1)] k cs(2) show "int (length (page_cells p)) = k" by simp
  qed
  have 4: "\<forall>j. Saved (resolve w (temp_pdf j)) \<notin> set ?rest"
    using temp_not_output [of w _ d] by auto
  have 5: "oplog w' = oplog w
          @ map (\<lambda>j. Saved (resolve w (temp_pdf j))) [1 ..< Suc (length ?pages)] @ ?rest"
    using log by simp
  from out k 1 2 3 4 5 show ?thesis by blast
qed

theorem page_count_witness:
  "\<exists>w'. images_to_pdf scenario_font scenario ''/data'' 2 False 10 True False = Inr w'
    \<and> os_listdir scenario ''/data'' = Inr [''a10.jpg'', ''notes.txt'', ''a2.jpg'', ''a1.jpg'']
    \<and> filter is_image [''a10.jpg'', ''notes.txt'', ''a2.jpg'', ''a1.jpg''] \<noteq> []
    \<and> (\<exists>pages. map_of (files w') (resolve scenario (os_path_join ''/data'' ''combined_output.pdf''))
           = Some (PdfFile pages) \<and> length pages = 2)"
proof -
  from scenario_runs(1) obtain w' where
    run: "images_to_pdf scenario_font scenario ''/data'' 2 False 10 True False = Inr w'"
    by (cases "images_to_pdf scenario_font scenario ''/data'' 2 False 10 True False") auto
  have ne: "filter is_image [''a10.jpg'', ''notes.txt'', ''a2.jpg'', ''a1.jpg''] \<noteq> []"
    unfolding scenario_runs(4) by simp
  have len: "length (filter is_image [''a10.jpg'', ''notes.txt'', ''a2.jpg'', ''a1.jpg'']) = 3"
    unfolding scenario_runs(4) by simp
  from page_count [OF run scenario_runs(3) ne] obtain pages where
    "map_of (files w') (resolve scenario (os_path_join ''/data'' ''combined_output.pdf''))
           = Some (PdfFile pages)"
    "int (length pages) = \<lceil>(of_nat (length (filter is_image [''a10.jpg'', ''notes.txt'', ''a2.jpg'', ''a1.jpg''])) :: rat) / of_int 2\<rceil>"
    by blast
  moreover have "\<lceil>(3::rat) / 2\<rceil> = 2"
    by (simp add: ceiling_eq_iff)
  ultimately have "\<exists>pages. map_of (files w') (resolve scenario (os_path_join ''/data'' ''combined_output.pdf''))
           = Some (PdfFile pages) \<and> length pages = 2"
    unfolding len by simp
  with run scenario_runs(3) ne show ?thesis by blast
qed

lemma canvas_text_label:
  assumes "resize_and_align_image th im psz m (Some l) = Inr c" and "l \<noteq> []"
  shows "canvas_text c = Some ((m, m), l)"
  using assms by (auto simp: resize_and_align_image_def split: sum.splits if_splits)

lemma cells_of_pages:
  assumes "0 < K"
  shows "concat (map (map fst \<circ> page_cells) (map (combine_page h) (group_pages K cells))) = cells"
proof -
  have "map (map fst \<circ> page_cells) (map (combine_page h) (group_pages K cells))
      = group_pages K cells"
    by (simp add: comp_def)
  with concat_group_pages [OF assms] show ?thesis by simp
qed

text \<open>
  Claim C6: in a successful run with \<open>label_images = true\<close>, the cells of the document,
  read across all its pages in order, are the images of the sorted list in order, and the
  \<open>i\<close>-th of them (counted from 1 over the whole run) is composed with the label
  \<^verbatim>\<open>Question i\<close>, drawn at \<open>(margin, margin)\<close>: one counter, never reset at a page boundary.
\<close>

theorem labels_sequential:
  assumes "images_to_pdf th w d k del m True sbt = Inr w'"
    and "os_listdir w d = Inr names" and "filter is_image names \<noteq> []"
  shows "\<exists>images pages cells.
      sort_images w d sbt (filter is_image names) = Inr images
    \<and> map_of (files w') (resolve w (os_path_join d ''combined_output.pdf'')) = Some (PdfFile pages)
    \<and> cells = concat (map (map fst \<circ> page_cells) pages)
    \<and> length cells = length images
    \<and> (\<forall>i<length images.
          (\<exists>img. image_open w (os_path_join d (images ! i)) = Inr img
             \<and> resize_and_align_image th img (fst A4_PAGE_SIZE, snd A4_PAGE_SIZE div k) m
                  (Some (''Question '' @ str_nat (i + 1))) = Inr (cells ! i))
          \<and> canvas_text (cells ! i) = Some ((m, m), ''Question '' @ str_nat (i + 1)))"
proof -
  from images_to_pdf_success [OF assms] obtain images cells where
    srt: "sort_images w d sbt (filter is_image names) = Inr images"
    and k: "1 \<le> k"
    and len: "length cells = length images"
    and c: "\<forall>j<length images. \<exists>img. image_open w (os_path_join d (images ! j)) = Inr img
          \<and> resize_and_align_image th img (fst A4_PAGE_SIZE, snd A4_PAGE_SIZE div k) m
               (make_label True (1 + j)) = Inr (cells ! j)"
    and out: "map_of (files w') (resolve w (os_path_join d ''combined_output.pdf''))
        = Some (PdfFile (map (combine_page (snd A4_PAGE_SIZE div k)) (group_pages (nat k) cells)))"
    by blast
  let ?pages = "map (combine_page (snd A4_PAGE_SIZE div k)) (group_pages (nat k) cells)"
  have K: "0 < nat k" using k by simp
  have cells: "cells = concat (map (map fst \<circ> page_cells) ?pages)"
    using cells_of_pages [OF K] by simp
  have "\<forall>i<length images.
          (\<exists>img. image_open w (os_path_join d (images ! i)) = Inr img
             \<and> resize_and_align_image th img (fst A4_PAGE_SIZE, snd A4_PAGE_SIZE div k) m
                  (Some (''Question '' @ str_nat (i + 1))) = Inr (cells ! i))
          \<and> canvas_text (cells ! i) = Some ((m, m), ''Question '' @ str_nat (i + 1))"
  proof (intro allI impI)
    fix i assume "i < length images"
    with c obtain img where img: "image_open w (os_path_join d (images ! i)) = Inr img"
      and r: "resize_and_align_image th img (fst A4_PAGE_SIZE, snd A4_PAGE_SIZE div k) m
               (Some (''Question '' @ str_nat (i + 1))) = Inr (cells ! i)"
      by (auto simp: make_label_def)
    from canvas_text_label [OF r] have "canvas_text (cells ! i) = Some ((m, m), ''Question '' @ str_nat (i + 1))"
      by simp
    with img r show "(\<exists>img. image_open w (os_path_join d (images ! i)) = Inr img
             \<and> resize_and_align_image th img (fst A4_PAGE_SIZE, snd A4_PAGE_SIZE div k) m
                  (Some (''Question '' @ str_nat (i + 1))) = Inr (cells ! i))
          \<and> canvas_text (cells ! i) = Some ((m, m), ''Question '' @ str_nat (i + 1))"
      by blast
  qed
  with srt out cells len show ?thesis by blast
qed

theorem labels_sequential_witness:
  "\<exists>w' pages. images_to_pdf scenario_font scenario ''/data'' 2 False 10 True False = Inr w'
    \<and> os_listdir scenario ''/data'' = Inr [''a10.jpg'', ''notes.txt'', ''a2.jpg'', ''a1.jpg'']
    \<and> filter is_image [''a10.jpg'', ''notes.txt'', ''a2.jpg'', ''a1.jpg''] \<noteq> []
    \<and> map_of (files w') (resolve scenario (os_path_join ''/data'' ''combined_output.pdf''))
         = Some (PdfFile pages)
    \<and> canvas_text (concat (map (map fst \<circ> page_cells) pages) ! 0)
         = Some ((10, 10), ''Question 1'')
    \<and> canvas_text (concat (map (map fst \<circ> page_cells) pages) ! 1)
         = Some ((10, 10), ''Question 2'')
    \<and> canvas_text (concat (map (map fst \<circ> page_cells) pages) ! 2)
         = Some ((10, 10), ''Question 3'')"
proof -
  from scenario_runs(1) obtain w' where
    run: "images_to_pdf scenario_font scenario ''/data'' 2 False 10 True False = Inr w'"
    by (cases "images_to_pdf scenario_font scenario ''/data'' 2 False 10 True False") auto
  have ne: "filter is_image [''a10.jpg'', ''notes.txt'', ''a2.jpg'', ''a1.jpg''] \<noteq> []"
    unfolding scenario_runs(4) by simp
  from labels_sequential [OF run scenario_runs(3) ne] obtain images pages where
    srt: "sort_images scenario ''/data'' False
           (filter is_image [''a10.jpg'', ''notes.txt'', ''a2.jpg'', ''a1.jpg'']) = Inr images"
    and out: "map_of (files w') (resolve scenario (os_path_join ''/data'' ''combined_output.pdf''))
         = Some (PdfFile pages)"
    and lab: "\<forall>i<length images. canvas_text (concat (map (map fst \<circ> page_cells) pages) ! i)
           = Some ((10, 10), ''Question '' @ str_nat (i + 1))"
    by blast
  from srt have "images = [''a1.jpg'', ''a2.jpg'', ''a10.jpg'']"
    unfolding scenario_runs(4) scenario_runs(5) by simp
  with lab have l: "\<forall>i<3. canvas_text (concat (map (map fst \<circ> page_cells) pages) ! i)
           = Some ((10, 10), ''Question '' @ str_nat (i + 1))"
    by simp
  have s: "str_nat (0 + 1) = ''1''" "str_nat (1 + 1) = ''2''" "str_nat (2 + 1) = ''3''"
    by code_simp+
  have "(0::nat) < 3" "(1::nat) < 3" "(2::nat) < 3" by simp_all
  with l have "canvas_text (concat (map (map fst \<circ> page_cells) pages) ! 0)
         = Some ((10, 10), ''Question '' @ str_nat (0 + 1))
    \<and> canvas_text (concat (map (map fst \<circ> page_cells) pages) ! 1)
         = Some ((10, 10), ''Question '' @ str_nat (1 + 1))
    \<and> canvas_text (concat (map (map fst \<circ> page_cells) pages) ! 2)
         = Some ((10, 10), ''Question '' @ str_nat (2 + 1))"
    by blast
  then have "canvas_text (concat (map (map fst \<circ> page_cells) pages) ! 0)
         = Some ((10, 10), ''Question 1'')
    \<and> canvas_text (concat (map (map fst \<circ> page_cells) pages) ! 1)
         = Some ((10, 10), ''Question 2'')
    \<and> canvas_text (concat (map (map fst \<circ> page_cells) pages) ! 2)
         = Some ((10, 10), ''Question 3'')"
    unfolding s by simp
  with run scenario_runs(3) ne out show ?thesis by blast
qed

lemma success_without_delete:
  assumes "images_to_pdf th w d k True m lab sbt = Inr w'"
  shows "\<exists>w''. images_to_pdf th w d k False m lab sbt = Inr w''"
  using assms by (auto simp: images_to_pdf_def split: sum.splits if_splits)

text \<open>
  Claim C7: in a successful run with \<open>delete_images = true\<close> over a directory with
  recognized images, every enumerated image file is gone afterwards, and the run is the
  run without deletion followed by the removals: \<^verbatim>\<open>combined_output.pdf\<close> is written before
  the first removal and holds the same document as without deletion.
\<close>

theorem delete_after_write:
  assumes "images_to_pdf th w d k True m lab sbt = Inr w'"
    and "os_listdir w d = Inr names" and "filter is_image names \<noteq> []"
  shows "\<exists>w'' pages images.
      images_to_pdf th w d k False m lab sbt = Inr w''
    \<and> sort_images w d sbt (filter is_image names) = Inr images
    \<and> map_of (files w'') (resolve w (os_path_join d ''combined_output.pdf'')) = Some (PdfFile pages)
    \<and> map_of (files w') (resolve w (os_path_join d ''combined_output.pdf'')) = Some (PdfFile pages)
    \<and> (\<forall>f\<in>set (filter is_image names).
          map_of (files w') (resolve w (os_path_join d f)) = None)
    \<and> Saved (resolve w (os_path_join d ''combined_output.pdf'')) \<in> set (oplog w'')
    \<and> oplog w' = oplog w'' @ map (\<lambda>f. Removed (resolve w (os_path_join d f))) images"
proof -
  let ?psz = "(fst A4_PAGE_SIZE, snd A4_PAGE_SIZE div k)"
  let ?out = "resolve w (os_path_join d ''combined_output.pdf'')"
  from images_to_pdf_success [OF assms] obtain images cells where
    srt: "sort_images w d sbt (filter is_image names) = Inr images"
    and len: "length cells = length images"
    and c: "\<forall>j<length images. \<exists>img. image_open w (os_path_join d (images ! j)) = Inr img
          \<and> resize_and_align_image th img ?psz m (make_label lab (1 + j)) = Inr (cells ! j)"
    and out: "map_of (files w') ?out
        = Some (PdfFile (map (combine_page (snd A4_PAGE_SIZE div k)) (group_pages (nat k) cells)))"
    and gone: "\<forall>f\<in>set images. map_of (files w') (resolve w (os_path_join d f)) = None"
    and log: "oplog w' = oplog w
        @ map (\<lambda>j. Saved (resolve w (temp_pdf j))) [1 ..< Suc (length (group_pages (nat k) cells))]
        @ [Saved ?out]
        @ map (\<lambda>j. Removed (resolve w (temp_pdf j))) [1 ..< Suc (length (group_pages (nat k) cells))]
        @ map (\<lambda>f. Removed (resolve w (os_path_join d f))) images"
    by auto
  from success_without_delete [OF assms(1)] obtain w'' where
    run: "images_to_pdf th w d k False m lab sbt = Inr w''" by blast
  from images_to_pdf_success [OF run assms(2,3)] srt obtain cells2 where
    len2: "length cells2 = length images"
    and c2: "\<forall>j<length images. \<exists>img. image_open w (os_path_join d (images ! j)) = Inr img
          \<and> resize_and_align_image th img ?psz m (make_label lab (1 + j)) = Inr (cells2 ! j)"
    and out2: "map_of (files w'') ?out
        = Some (PdfFile (map (combine_page (snd A4_PAGE_SIZE div k)) (group_pages (nat k) cells2)))"
    and log2: "oplog w'' = oplog w
        @ map (\<lambda>j. Saved (resolve w (temp_pdf j))) [1 ..< Suc (length (group_pages (nat k) cells2))]
        @ [Saved ?out]
        @ map (\<lambda>j. Removed (resolve w (temp_pdf j))) [1 ..< Suc (length (group_pages (nat k) cells2))]"
    by auto
  have "cells2 = cells"
  proof (rule nth_equalityI)
    show "length cells2 = length cells" using len len2 by simp
  next
    fix i assume "i < length cells2"
    with len2 have i: "i < length images" by simp
    from c i obtain img where "image_open w (os_path_join d (images ! i)) = Inr img"
      "resize_and_align_image th img ?psz m (make_label lab (1 + i)) = Inr (cells ! i)" by blast
    moreover from c2 i obtain img2 where "image_open w (os_path_join d (images ! i)) = Inr img2"
      "resize_and_align_image th img2 ?psz m (make_label lab (1 + i)) = Inr (cells2 ! i)" by blast
    ultimately show "cells2 ! i = cells ! i" by simp
  qed
  with out2 log2 have out2': "map_of (files w'') ?out
        = Some (PdfFile (map (combine_page (snd A4_PAGE_SIZE div k)) (group_pages (nat k) cells)))"
    and log2': "oplog w'' = oplog w
        @ map (\<lambda>j. Saved (resolve w (temp_pdf j))) [1 ..< Suc (length (group_pages (nat k) cells))]
        @ [Saved ?out]
        @ map (\<lambda>j. Removed (resolve w (temp_pdf j))) [1 ..< Suc (length (group_pages (nat k) cells))]"
    by simp_all
  from sort_images_Inr [OF srt] gone
  have gone': "\<forall>f\<in>set (filter is_image names). map_of (files w') (resolve w (os_path_join d f)) = None"
    by simp
  have saved: "Saved ?out \<in> set (oplog w'')"
    unfolding log2' by simp
  have "oplog w' = oplog w'' @ map (\<lambda>f. Removed (resolve w (os_path_join d f))) images"
    unfolding log log2' by simp
  with run srt out out2' gone' saved show ?thesis by blast
qed

theorem delete_after_write_witness:
  "\<exists>w' w'' pages. images_to_pdf scenario_font scenario ''/data'' 2 True 10 True False = Inr w'
    \<and> os_listdir scenario ''/data'' = Inr [''a10.jpg'', ''notes.txt'', ''a2.jpg'', ''a1.jpg'']
    \<and> filter is_image [''a10.jpg'', ''notes.txt'', ''a2.jpg'', ''a1.jpg''] \<noteq> []
    \<and> images_to_pdf scenario_font scenario ''/data'' 2 False 10 True False = Inr w''
    \<and> map_of (files w'') (resolve scenario (os_path_join ''/data'' ''combined_output.pdf''))
         = Some (PdfFile pages)
    \<and> map_of (files w') (resolve scenario (os_path_join ''/data'' ''combined_output.pdf''))
         = Some (PdfFile pages)
    \<and> map_of (files w') (resolve scenario (os_path_join ''/data'' ''a10.jpg'')) = None
    \<and> map_of (files w') (resolve scenario (os_path_join ''/data'' ''a2.jpg'')) = None
    \<and> map_of (files w') (resolve scenario (os_path_join ''/data'' ''a1.jpg'')) = None"
proof -
  from scenario_runs(2) obtain w' where
    run: "images_to_pdf scenario_font scenario ''/data'' 2 True 10 True False = Inr w'"
    by (cases "images_to_pdf scenario_font scenario ''/data'' 2 True 10 True False") auto
  have ne: "filter is_image [''a10.jpg'', ''notes.txt'', ''a2.jpg'', ''a1.jpg''] \<noteq> []"
    unfolding scenario_runs(4) by simp
  from delete_after_write [OF run scenario_runs(3) ne] run scenario_runs(3) ne
  show ?thesis
    unfolding scenario_runs(4) by (simp del: map_of_eq_None_iff) blast
qed
















text \<open>
  Claim C8: when the listing of the directory holds no entry with a recognized image
  extension, \<^verbatim>\<open>images_to_pdf\<close> prints a message and returns normally; no file is written
  or removed, so neither \<^verbatim>\<open>combined_output.pdf\<close> nor a temporary artifact is created.
\<close>

theorem no_images_found:
  assumes "os_listdir w directory = Inr names" and "filter is_image names = []"
  shows "images_to_pdf th w directory images_per_page delete_images margin label_images sort_by_time
           = Inr (print w ''No images found in the directory.'')
         \<and> files (print w ''No images found in the directory.'') = files w
         \<and> oplog (print w ''No images found in the directory.'') = oplog w
         \<and> stdout (print w ''No images found in the directory.'')
             = stdout w @ [''No images found in the directory.'']"
  using assms by (simp add: images_to_pdf_def print_def)

theorem no_images_found_witness:
  "os_listdir scenario ''/empty'' = Inr [''notes.txt''] \<and> filter is_image [''notes.txt''] = []
   \<and> images_to_pdf scenario_font scenario ''/empty'' 1 False 0 False False
       = Inr (print scenario ''No images found in the directory.'')"
  using no_images_found [OF scenario_runs(6) scenario_runs(7)] scenario_runs(6) scenario_runs(7)
  by blast

text \<open>
  Claim C10: \<^verbatim>\<open>images_to_pdf\<close> does not validate \<open>images_per_page\<close>. Called with 0 on a
  directory with at least one recognized image, a run that gets as far as line 96 (the
  listing and the sort succeed) fails there with \<open>ZeroDivisionError\<close>. The check for a
  value of at least 1 is in the interactive glue only, which never passes a smaller one.
\<close>

theorem zero_images_per_page:
  assumes "os_listdir w directory = Inr names" and "filter is_image names \<noteq> []"
    and "sort_images w directory sort_by_time (filter is_image names) = Inr images"
  shows "images_to_pdf th w directory 0 delete_images margin label_images sort_by_time
           = Inl ZeroDivisionError
         \<and> 1 \<le> cli_images_per_page parse answer"
  using assms by (simp add: images_to_pdf_def cli_images_per_page_def split: option.splits)

theorem zero_images_per_page_witness:
  "os_listdir scenario ''/data'' = Inr [''a10.jpg'', ''notes.txt'', ''a2.jpg'', ''a1.jpg'']
   \<and> filter is_image [''a10.jpg'', ''notes.txt'', ''a2.jpg'', ''a1.jpg''] \<noteq> []
   \<and> sort_images scenario ''/data'' False
        (filter is_image [''a10.jpg'', ''notes.txt'', ''a2.jpg'', ''a1.jpg''])
        = Inr [''a1.jpg'', ''a2.jpg'', ''a10.jpg'']
   \<and> images_to_pdf scenario_font scenario ''/data'' 0 False 0 False False = Inl ZeroDivisionError"
proof -
  have ne: "filter is_image [''a10.jpg'', ''notes.txt'', ''a2.jpg'', ''a1.jpg''] \<noteq> []"
    unfolding scenario_runs(4) by simp
  have srt: "sort_images scenario ''/data'' False
        (filter is_image [''a10.jpg'', ''notes.txt'', ''a2.jpg'', ''a1.jpg''])
        = Inr [''a1.jpg'', ''a2.jpg'', ''a10.jpg'']"
    unfolding scenario_runs(4) by (rule scenario_runs(5))
  from zero_images_per_page [OF scenario_runs(3) ne srt] scenario_runs(3) ne srt
  show ?thesis by blast
qed

end
